theory Spec2Isabelle
  imports Complex_Main
begin

section \<open>Python numerics used by \<open>main.py\<close>\<close>

text \<open>
  The source mixes Python integers with floating point: \<open>int(x)\<close> truncates towards
  zero, \<open>math.ceil\<close> rounds up, \<open>/\<close> is true division and raises
  \<open>ZeroDivisionError\<close> on a zero divisor. Fractions are modelled as exact rationals;
  binary rounding of the products is not modelled. For frame dimensions, window sizes and
  pixelation factors (integers far below \<open>2^53\<close>) the quotients taken by the tiling
  code are rounded correctly by IEEE doubles, so truncation and ceiling of the exact
  quotient agree with the float computation.
\<close>

text \<open>The exceptions the model distinguishes. \<open>MediaReadError\<close> is the error kind the
  specification names for unreadable media; no statement of \<open>main.py\<close> raises it.\<close>

datatype error = ZeroDivisionError | CvError | DetectorError | AttributeError | MediaReadError

definition py_int :: "rat \<Rightarrow> int" where
  "py_int q = (if q < 0 then \<lceil>q\<rceil> else \<lfloor>q\<rfloor>)"

definition py_ceil :: "rat \<Rightarrow> int" where
  "py_ceil q = \<lceil>q\<rceil>"

definition py_truediv :: "rat \<Rightarrow> rat \<Rightarrow> error + rat" where
  "py_truediv a b = (if b = 0 then Inl ZeroDivisionError else Inr (a / b))"

section \<open>Parameters, boxes and frames\<close>

text \<open>The fields \<open>FaceAnonymizer.__init__\<close> stores (the detector is a parameter of the
  functions below; the callbacks are modelled by the event trace further down).\<close>

record params =
  face_min_size :: int
  face_expand :: rat
  pixelation_factor :: int
  window_sizes :: "int list"

text \<open>A box is the tuple \<open>(x1, y1, x2, y2)\<close> that \<open>process_img\<close> yields.\<close>

type_synonym box = "int \<times> int \<times> int \<times> int"

text \<open>\<open>detection.location_data.relative_bounding_box\<close>: fractions of the image size.\<close>

record bbox =
  xmin :: rat
  ymin :: rat
  width :: rat
  height :: rat

text \<open>
  A frame is a numpy array of shape \<open>(rows, cols, channels)\<close>; a pixel (all its channels)
  is a value of type \<open>'a\<close>, read at row \<open>r\<close> and column \<open>c\<close>.
\<close>

record 'a image =
  rows :: nat
  cols :: nat
  px :: "nat \<Rightarrow> nat \<Rightarrow> 'a"

text \<open>numpy's normalisation of one slice bound against an axis of length \<open>n\<close>: a negative
  bound counts from the end, and every bound is clipped to the axis.\<close>

definition slice_bound :: "nat \<Rightarrow> int \<Rightarrow> nat" where
  "slice_bound n i = (if i < 0 then nat (max 0 (i + int n)) else min n (nat i))"

text \<open>\<open>img[a:b, c:d]\<close>: the view of rows \<open>a..b\<close> and columns \<open>c..d\<close>.\<close>

definition crop :: "'a image \<Rightarrow> int \<Rightarrow> int \<Rightarrow> int \<Rightarrow> int \<Rightarrow> 'a image" where
  "crop img a b c d =
     (let r0 = slice_bound (rows img) a; r1 = slice_bound (rows img) b;
          c0 = slice_bound (cols img) c; c1 = slice_bound (cols img) d
      in \<lparr>rows = r1 - r0, cols = c1 - c0, px = (\<lambda>r k. px img (r0 + r) (c0 + k))\<rparr>)"

text \<open>Whether pixel \<open>(r, c)\<close> lies in the slice \<open>[y1:y2, x1:x2]\<close> of the frame.\<close>

definition in_slice :: "'a image \<Rightarrow> box \<Rightarrow> nat \<Rightarrow> nat \<Rightarrow> bool" where
  "in_slice img b r c =
     (case b of (x1, y1, x2, y2) \<Rightarrow>
        slice_bound (rows img) y1 \<le> r \<and> r < slice_bound (rows img) y2 \<and>
        slice_bound (cols img) x1 \<le> c \<and> c < slice_bound (cols img) x2)"

text \<open>\<open>img[y1:y2, x1:x2] = pixelated_img[y1:y2, x1:x2]\<close> (line 108): both arrays have
  the shape of the frame, so the same pixels are selected on both sides.\<close>

definition copy_region :: "'a image \<Rightarrow> 'a image \<Rightarrow> box \<Rightarrow> 'a image" where
  "copy_region pixelated_img img b =
     img\<lparr>px := (\<lambda>r c. if in_slice img b r c then px pixelated_img r c else px img r c)\<rparr>"

section \<open>Bounding-box geometry (\<open>process_img\<close>, lines 57-88)\<close>

text \<open>Lines 66-69: the detector's relative box in pixels of a \<open>w\<close> by \<open>h\<close> image.\<close>

definition raw_box :: "int \<Rightarrow> int \<Rightarrow> bbox \<Rightarrow> box" where
  "raw_box w h bb =
     (py_int (xmin bb * of_int w), py_int (ymin bb * of_int h),
      py_int ((xmin bb + width bb) * of_int w), py_int ((ymin bb + height bb) * of_int h))"

text \<open>Lines 72-75, statement by statement: \<open>x1\<close> and \<open>y1\<close> are reassigned before the
  right-hand sides of \<open>x2\<close> and \<open>y2\<close> read them.\<close>

definition expand :: "rat \<Rightarrow> box \<Rightarrow> box" where
  "expand f b =
     (case b of (x1, y1, x2, y2) \<Rightarrow>
        let x1 = x1 - py_int (f * of_int (x2 - x1));
            y1 = y1 - py_int (f * of_int (y2 - y1));
            x2 = x2 + py_int (f * of_int (x2 - x1));
            y2 = y2 + py_int (f * of_int (y2 - y1))
        in (x1, y1, x2, y2))"

text \<open>Lines 78-79.\<close>

definition clamp :: "int \<Rightarrow> int \<Rightarrow> box \<Rightarrow> box" where
  "clamp w h b = (case b of (x1, y1, x2, y2) \<Rightarrow> (max 0 x1, max 0 y1, min w x2, min h y2))"

text \<open>Line 82: the test that makes the loop \<open>continue\<close>.\<close>

definition too_small :: "int \<Rightarrow> box \<Rightarrow> bool" where
  "too_small m b = (case b of (x1, y1, x2, y2) \<Rightarrow> x2 - x1 < m \<or> y2 - y1 < m)"

text \<open>
  The detection oracle stands for \<open>cv2.cvtColor\<close> followed by \<open>self.detector.process\<close>:
  given the image it returns the detections' relative boxes (none when
  \<open>faces.detections\<close> is empty or \<open>None\<close>) or raises.
\<close>

type_synonym 'a detector = "'a image \<Rightarrow> error + bbox list"

definition process_img :: "'a detector \<Rightarrow> params \<Rightarrow> 'a image \<Rightarrow> error + box list" where
  "process_img det ps img =
     (case det img of
        Inl e \<Rightarrow> Inl e
      | Inr detections \<Rightarrow>
          let h = int (rows img); w = int (cols img)
          in Inr (filter (\<lambda>b. \<not> too_small (face_min_size ps) b)
                    (map (\<lambda>bb. clamp w h (expand (face_expand ps) (raw_box w h bb)))
                       detections)))"

section \<open>Sliding-window tiling (\<open>sliding_window\<close>, lines 115-142)\<close>

text \<open>
  Lines 118-124 for one axis of length \<open>d\<close>: the number of windows and the step. The
  source computes the same two expressions for axis 0 (\<open>windows_x\<close>, \<open>step_x\<close>) and
  for axis 1 (\<open>windows_y\<close>, \<open>step_y\<close>).
\<close>

definition axis_windows :: "int \<Rightarrow> int \<Rightarrow> error + int" where
  "axis_windows d window_size =
     (let window_step = of_int window_size / 2
      in case py_truediv (of_int d) window_step of
           Inl e \<Rightarrow> Inl e
         | Inr q \<Rightarrow> Inr (py_ceil q))"

definition axis_step :: "int \<Rightarrow> int \<Rightarrow> error + int" where
  "axis_step d windows =
     (case py_truediv (of_int d) (of_int windows) of
        Inl e \<Rightarrow> Inl e
      | Inr q \<Rightarrow> Inr (py_int q))"

text \<open>\<open>range(n)\<close> as a list of Python integers.\<close>

definition py_range :: "int \<Rightarrow> int list" where
  "py_range n = map int [0..<nat n]"

text \<open>The intervals \<open>(int(i * step), int((i + 1) * step))\<close> of lines 126-131 along one
  axis.\<close>

definition axis_intervals :: "int \<Rightarrow> int \<Rightarrow> error + (int \<times> int) list" where
  "axis_intervals d window_size =
     (case axis_windows d window_size of
        Inl e \<Rightarrow> Inl e
      | Inr windows \<Rightarrow>
          (case axis_step d windows of
             Inl e \<Rightarrow> Inl e
           | Inr step \<Rightarrow> Inr (map (\<lambda>i. (i * step, (i + 1) * step)) (py_range windows))))"

text \<open>A tile is \<open>(x1, x2, y1, y2)\<close> in the source's names: \<open>x\<close> runs along axis 0 (rows),
  \<open>y\<close> along axis 1 (columns), because line 116 unpacks the shape as \<open>w, h, _\<close>.\<close>

type_synonym tile = "int \<times> int \<times> int \<times> int"

definition sliding_window_tiles :: "'a image \<Rightarrow> int \<Rightarrow> error + tile list" where
  "sliding_window_tiles img window_size =
     (let w = int (rows img); h = int (cols img)
      in case axis_intervals w window_size of
           Inl e \<Rightarrow> Inl e
         | Inr xs \<Rightarrow>
             (case axis_intervals h window_size of
                Inl e \<Rightarrow> Inl e
              | Inr ys \<Rightarrow>
                  Inr (concat (map (\<lambda>(x1, x2). map (\<lambda>(y1, y2). (x1, x2, y1, y2)) ys) xs))))"

section \<open>Mosaic and region copy (\<open>process\<close>, lines 90-109)\<close>

text \<open>
  \<open>cv2.resize(src, dsize)\<close> is an external library call; its two uses (default bilinear
  interpolation at line 97, \<open>INTER_AREA\<close> at line 98) are parameters of the model. What
  the model fixes is what the caller relies on: \<open>dsize\<close> is \<open>(width, height)\<close>, the result
  has that shape, and a \<open>dsize\<close> with a component below 1 raises \<open>cv2.error\<close>.
\<close>

record 'a cv2 =
  resize_linear :: "'a image \<Rightarrow> int \<times> int \<Rightarrow> nat \<Rightarrow> nat \<Rightarrow> 'a"
  resize_area :: "'a image \<Rightarrow> int \<times> int \<Rightarrow> nat \<Rightarrow> nat \<Rightarrow> 'a"

definition cv_resize ::
  "('a image \<Rightarrow> int \<times> int \<Rightarrow> nat \<Rightarrow> nat \<Rightarrow> 'a) \<Rightarrow> 'a image \<Rightarrow> int \<times> int \<Rightarrow> error + 'a image" where
  "cv_resize interpolate src dsize =
     (case dsize of (dw, dh) \<Rightarrow>
        if dw < 1 \<or> dh < 1 then Inl CvError
        else Inr \<lparr>rows = nat dh, cols = nat dw, px = interpolate src dsize\<rparr>)"

text \<open>Lines 91-98: the whole-frame mosaic \<open>pixelated_img\<close>. Line 91 unpacks the shape as
  \<open>w, h, _\<close>, so \<open>w\<close> is the number of rows and \<open>h\<close> the number of columns.\<close>

definition mosaic :: "'a cv2 \<Rightarrow> params \<Rightarrow> 'a image \<Rightarrow> error + 'a image" where
  "mosaic cv ps img =
     (let w = int (rows img); h = int (cols img)
      in case py_truediv (of_int h) (of_int (pixelation_factor ps)) of
           Inl e \<Rightarrow> Inl e
         | Inr qh \<Rightarrow>
             (case py_truediv (of_int w) (of_int (pixelation_factor ps)) of
                Inl e \<Rightarrow> Inl e
              | Inr qw \<Rightarrow>
                  (case cv_resize (resize_linear cv) img (py_int qh, py_int qw) of
                     Inl e \<Rightarrow> Inl e
                   | Inr small \<Rightarrow> cv_resize (resize_area cv) small (h, w))))"

text \<open>The body of the loop at lines 100-108, run over a sequence of boxes.\<close>

definition apply_boxes :: "'a image \<Rightarrow> 'a image \<Rightarrow> box list \<Rightarrow> 'a image" where
  "apply_boxes pixelated_img img bs = foldl (copy_region pixelated_img) img bs"

text \<open>
  \<open>anonymize\<close> is \<open>process\<close> with the sequence of boxes given: the mosaic of lines 91-98,
  then the loop of lines 100-108 over that sequence. (\<open>process\<close> itself, below, draws
  the boxes lazily from the detector while it mutates the frame.)
\<close>

definition anonymize :: "'a cv2 \<Rightarrow> params \<Rightarrow> 'a image \<Rightarrow> box list \<Rightarrow> error + 'a image" where
  "anonymize cv ps img bs =
     (case mosaic cv ps img of
        Inl e \<Rightarrow> Inl e
      | Inr pixelated_img \<Rightarrow> Inr (apply_boxes pixelated_img img bs))"

section \<open>Multi-scale detection interleaved with the copy (\<open>process\<close>)\<close>

text \<open>Lines 140-142: the detector runs on the view \<open>img[x1:x2, y1:y2]\<close> of the frame as
  it is when the generator reaches the tile; its boxes are translated by the tile's
  offsets.\<close>

definition window_boxes :: "'a detector \<Rightarrow> params \<Rightarrow> 'a image \<Rightarrow> tile \<Rightarrow> error + box list" where
  "window_boxes det ps img t =
     (case t of (x1, x2, y1, y2) \<Rightarrow>
        (case process_img det ps (crop img x1 x2 y1 y2) of
           Inl e \<Rightarrow> Inl e
         | Inr fs \<Rightarrow>
             Inr (map (\<lambda>(fx1, fy1, fx2, fy2). (y1 + fx1, x1 + fy1, y1 + fx2, x1 + fy2)) fs)))"

text \<open>
  The generators are lazy: the boxes of a tile are computed when the loop of
  \<open>process\<close> asks for them, after the boxes of all earlier tiles have been copied into
  the frame. The loops return the boxes yielded so far together with the frame or the
  exception that ended the run.
\<close>

fun scan_tiles ::
  "'a image \<Rightarrow> 'a detector \<Rightarrow> params \<Rightarrow> tile list \<Rightarrow> box list \<Rightarrow> 'a image
     \<Rightarrow> box list \<times> (error + 'a image)" where
  "scan_tiles pixelated_img det ps [] yielded img = (yielded, Inr img)"
| "scan_tiles pixelated_img det ps (t # ts) yielded img =
     (case window_boxes det ps img t of
        Inl e \<Rightarrow> (yielded, Inl e)
      | Inr bs \<Rightarrow>
          scan_tiles pixelated_img det ps ts (yielded @ bs) (apply_boxes pixelated_img img bs))"

fun sliding_windows ::
  "'a image \<Rightarrow> 'a detector \<Rightarrow> params \<Rightarrow> int list \<Rightarrow> box list \<Rightarrow> 'a image
     \<Rightarrow> box list \<times> (error + 'a image)" where
  "sliding_windows pixelated_img det ps [] yielded img = (yielded, Inr img)"
| "sliding_windows pixelated_img det ps (window_size # sizes) yielded img =
     (case sliding_window_tiles img window_size of
        Inl e \<Rightarrow> (yielded, Inl e)
      | Inr ts \<Rightarrow>
          (case scan_tiles pixelated_img det ps ts yielded img of
             (yielded', Inl e) \<Rightarrow> (yielded', Inl e)
           | (yielded', Inr img') \<Rightarrow> sliding_windows pixelated_img det ps sizes yielded' img'))"

text \<open>\<open>process\<close>: the mosaic, every sliding-window pass in the order of
  \<open>window_sizes\<close>, then the full-frame pass (\<open>chain\<close> at line 100).\<close>

definition process_trace ::
  "'a cv2 \<Rightarrow> 'a detector \<Rightarrow> params \<Rightarrow> 'a image \<Rightarrow> box list \<times> (error + 'a image)" where
  "process_trace cv det ps img =
     (case mosaic cv ps img of
        Inl e \<Rightarrow> ([], Inl e)
      | Inr pixelated_img \<Rightarrow>
          (case sliding_windows pixelated_img det ps (window_sizes ps) [] img of
             (yielded, Inl e) \<Rightarrow> (yielded, Inl e)
           | (yielded, Inr img') \<Rightarrow>
               (case process_img det ps img' of
                  Inl e \<Rightarrow> (yielded, Inl e)
                | Inr bs \<Rightarrow> (yielded @ bs, Inr (apply_boxes pixelated_img img' bs)))))"

definition process :: "'a cv2 \<Rightarrow> 'a detector \<Rightarrow> params \<Rightarrow> 'a image \<Rightarrow> error + 'a image" where
  "process cv det ps img = snd (process_trace cv det ps img)"

text \<open>The boxes the two generators yield during one call of \<open>process\<close>.\<close>

definition detected_boxes :: "'a cv2 \<Rightarrow> 'a detector \<Rightarrow> params \<Rightarrow> 'a image \<Rightarrow> box list" where
  "detected_boxes cv det ps img = fst (process_trace cv det ps img)"

text \<open>The invariant the spec states for a box in a frame of width \<open>W\<close> and height \<open>H\<close>
  with minimum side \<open>m\<close>.\<close>

definition box_ok :: "int \<Rightarrow> int \<Rightarrow> int \<Rightarrow> box \<Rightarrow> bool" where
  "box_ok W H m b =
     (case b of (x1, y1, x2, y2) \<Rightarrow>
        0 \<le> x1 \<and> x1 \<le> x2 \<and> x2 \<le> W \<and> 0 \<le> y1 \<and> y1 \<le> y2 \<and> y2 \<le> H \<and>
        m \<le> x2 - x1 \<and> m \<le> y2 - y1)"

section \<open>Files, media and progress (\<open>process_image_file\<close> to \<open>process_dir\<close>)\<close>

text \<open>Lines 14-16.\<close>

definition video_extensions :: "string list" where
  "video_extensions = [''.mp4'', ''.avi'', ''.mov'']"

definition image_extensions :: "string list" where
  "image_extensions = [''.jpg'', ''.jpeg'', ''.png'']"

definition supported_extensions :: "string list" where
  "supported_extensions = video_extensions @ image_extensions"

text \<open>What the code reads of a \<open>Path\<close>: its text, its suffix and \<open>is_file()\<close>.\<close>

record entry =
  path_name :: string
  suffix :: string
  is_file :: bool

text \<open>\<open>sorted(xs, key=key, reverse=True)\<close>: CPython reverses the list, sorts it stably in
  ascending key order and reverses the result, so equal keys keep their order.\<close>

definition py_sorted_reverse :: "('a \<Rightarrow> bool) \<Rightarrow> 'a list \<Rightarrow> 'a list" where
  "py_sorted_reverse key xs = rev (sort_key key (rev xs))"

text \<open>Lines 207-215: \<open>entries\<close> is the list \<open>path.rglob("*")\<close> returned, in its order.\<close>

definition files_to_process :: "entry list \<Rightarrow> entry list" where
  "files_to_process entries =
     py_sorted_reverse (\<lambda>f. suffix f \<in> set image_extensions)
       (filter (\<lambda>f. is_file f \<and> suffix f \<in> set supported_extensions) entries)"

datatype kind = Image | Video

text \<open>What a run does to the outside world, in order: the two callbacks, the video
  writer and \<open>cv2.imwrite\<close>.\<close>

datatype 'a event =
    GlobalProgress rat kind string
  | LocalProgress rat
  | WriterOpened string
  | FrameWritten string "'a image"
  | Released string
  | ImageWritten string "'a image"

text \<open>
  \<open>click.progressbar\<close> is an external library; the model keeps the three fields its
  \<open>pct\<close> property reads (click 8.1: \<open>make_step\<close> adds to \<open>pos\<close> and sets \<open>finished\<close>
  once \<open>pos >= length\<close>; \<open>pct\<close> is 1.0 when finished and otherwise
  \<open>min(pos / (length or 1), 1.0)\<close>).
\<close>

record progressbar =
  pos :: int
  length_bar :: int
  finished :: bool

definition new_bar :: "int \<Rightarrow> progressbar" where
  "new_bar n = \<lparr>pos = 0, length_bar = n, finished = False\<rparr>"

definition bar_update :: "int \<Rightarrow> progressbar \<Rightarrow> progressbar" where
  "bar_update n_steps bar =
     (let p = pos bar + n_steps
      in bar\<lparr>pos := p, finished := (finished bar \<or> length_bar bar \<le> p)\<rparr>)"

definition bar_pct :: "progressbar \<Rightarrow> rat" where
  "bar_pct bar =
     (if finished bar then 1
      else min (of_int (pos bar) / of_int (if length_bar bar = 0 then 1 else length_bar bar)) 1)"

text \<open>A \<open>cv2.VideoCapture\<close>: whether it opened, the frames \<open>read()\<close> will deliver before
  it reports failure, and the frame count it reports.\<close>

record 'a capture =
  opened :: bool
  frames :: "'a image list"
  frame_count :: int

text \<open>Which of the two callbacks are installed (\<open>gui.py\<close> installs both, the command
  line none).\<close>

record callbacks =
  local_progress_callback :: bool
  global_progress_callback :: bool

text \<open>The loop of lines 168-177 over the frames the capture still delivers; \<open>proc\<close> is
  \<open>self.process\<close>.\<close>

fun video_frames ::
  "callbacks \<Rightarrow> ('a image \<Rightarrow> error + 'a image) \<Rightarrow> string \<Rightarrow> progressbar \<Rightarrow> 'a image list
     \<Rightarrow> 'a event list \<times> (error + unit)" where
  "video_frames cb proc out_path bar [] = ([], Inr ())"
| "video_frames cb proc out_path bar (frame # rest) =
     (case proc frame of
        Inl e \<Rightarrow> ([], Inl e)
      | Inr img \<Rightarrow>
          (let bar' = bar_update 1 bar;
               evs = FrameWritten out_path img #
                     (if local_progress_callback cb then [LocalProgress (bar_pct bar')] else [])
           in case video_frames cb proc out_path bar' rest of
                (later, r) \<Rightarrow> (evs @ later, r)))"

text \<open>Lines 149-180. The writer is constructed before the capture is examined; an
  exception of \<open>self.process\<close> leaves the function before the two \<open>release\<close> calls.\<close>

definition process_video_file ::
  "callbacks \<Rightarrow> ('a image \<Rightarrow> error + 'a image) \<Rightarrow> 'a capture \<Rightarrow> string
     \<Rightarrow> 'a event list \<times> (error + unit)" where
  "process_video_file cb proc cap out_path =
     (let total_frames = frame_count cap;
          bar = new_bar total_frames
      in case (if opened cap then video_frames cb proc out_path bar (frames cap)
               else ([], Inr ())) of
           (evs, Inl e) \<Rightarrow> (WriterOpened out_path # evs, Inl e)
         | (evs, Inr u) \<Rightarrow> (WriterOpened out_path # evs @ [Released out_path], Inr ()))"

text \<open>Lines 144-147. \<open>cv2.imread\<close> returns \<open>None\<close> for a file it cannot decode, and
  line 91 then fails on \<open>None.shape\<close>.\<close>

definition process_image_file ::
  "('a image \<Rightarrow> error + 'a image) \<Rightarrow> 'a image option \<Rightarrow> string
     \<Rightarrow> 'a event list \<times> (error + unit)" where
  "process_image_file proc imread out_path =
     (case imread of
        None \<Rightarrow> ([], Inl AttributeError)
      | Some img \<Rightarrow>
          (case proc img of
             Inl e \<Rightarrow> ([], Inl e)
           | Inr img' \<Rightarrow> ([ImageWritten out_path img'], Inr ())))"

text \<open>The file system as the run sees it: what \<open>cv2.imread\<close> and \<open>cv2.VideoCapture\<close>
  give for a path, and the output path computed for it.\<close>

record 'a world =
  imread :: "string \<Rightarrow> 'a image option"
  video_capture :: "string \<Rightarrow> 'a capture"
  out_filepath :: "string \<Rightarrow> string"

text \<open>Lines 182-199 (\<open>_process_file\<close>).\<close>

definition process_file_inner ::
  "callbacks \<Rightarrow> ('a image \<Rightarrow> error + 'a image) \<Rightarrow> 'a world \<Rightarrow> entry \<Rightarrow> rat
     \<Rightarrow> 'a event list \<times> (error + unit)" where
  "process_file_inner cb proc world filename global_progress =
     (let filetype = (if suffix filename \<in> set video_extensions then Video else Image);
          announce = (if global_progress_callback cb
                      then [GlobalProgress global_progress filetype (path_name filename)]
                      else []);
          out = out_filepath world (path_name filename)
      in case (if filetype = Video
               then process_video_file cb proc (video_capture world (path_name filename)) out
               else process_image_file proc (imread world (path_name filename)) out) of
           (evs, r) \<Rightarrow> (announce @ evs, r))"

text \<open>Lines 201-203: the default \<open>global_progress=0\<close>.\<close>

definition process_file ::
  "callbacks \<Rightarrow> ('a image \<Rightarrow> error + 'a image) \<Rightarrow> 'a world \<Rightarrow> entry
     \<Rightarrow> 'a event list \<times> (error + unit)" where
  "process_file cb proc world filename = process_file_inner cb proc world filename 0"

text \<open>
  The loop of lines 217-223. click advances the bar by one after each iteration of the
  body, unless the bar is hidden (no terminal), in which case iteration leaves \<open>pos\<close>
  alone. An exception ends the loop.
\<close>

fun process_files ::
  "bool \<Rightarrow> callbacks \<Rightarrow> ('a image \<Rightarrow> error + 'a image) \<Rightarrow> 'a world \<Rightarrow> progressbar
     \<Rightarrow> entry list \<Rightarrow> 'a event list \<times> (error + unit)" where
  "process_files is_hidden cb proc world bar [] = ([], Inr ())"
| "process_files is_hidden cb proc world bar (filename # rest) =
     (case process_file_inner cb proc world filename (bar_pct bar) of
        (evs, Inl e) \<Rightarrow> (evs, Inl e)
      | (evs, Inr u) \<Rightarrow>
          (case process_files is_hidden cb proc world
                  (if is_hidden then bar else bar_update 1 bar) rest of
             (later, r) \<Rightarrow> (evs @ later, r)))"

text \<open>Lines 205-226.\<close>

definition process_dir ::
  "bool \<Rightarrow> callbacks \<Rightarrow> ('a image \<Rightarrow> error + 'a image) \<Rightarrow> 'a world \<Rightarrow> entry list
     \<Rightarrow> 'a event list \<times> (error + unit)" where
  "process_dir is_hidden cb proc world entries =
     (let files = files_to_process entries
      in process_files is_hidden cb proc world (new_bar (int (length files))) files)"

text \<open>The values a trace hands to each callback, in order.\<close>

fun global_values :: "'a event list \<Rightarrow> rat list" where
  "global_values [] = []"
| "global_values (GlobalProgress g k f # evs) = g # global_values evs"
| "global_values (e # evs) = global_values evs"

fun local_values :: "'a event list \<Rightarrow> rat list" where
  "local_values [] = []"
| "local_values (LocalProgress v # evs) = v # local_values evs"
| "local_values (e # evs) = local_values evs"

text \<open>The paths announced to the global callback, in order: the order in which the
  files are processed.\<close>

fun announced :: "'a event list \<Rightarrow> string list" where
  "announced [] = []"
| "announced (GlobalProgress g k f # evs) = f # announced evs"
| "announced (e # evs) = announced evs"

text \<open>The output files a trace creates, in order: \<open>cv2.imwrite\<close> at the end of an image
  job (line 147) and the \<open>cv2.VideoWriter\<close> at the start of a video job (line 151). They
  do not depend on the callbacks.\<close>

fun written :: "'a event list \<Rightarrow> string list" where
  "written [] = []"
| "written (ImageWritten p img # evs) = p # written evs"
| "written (WriterOpened p # evs) = p # written evs"
| "written (e # evs) = written evs"

section \<open>Predicates and example inputs used by the theorems\<close>

text \<open>A tile \<open>(x1, x2, y1, y2)\<close> that lies inside the frame.\<close>

definition tile_ok :: "'a image \<Rightarrow> tile \<Rightarrow> bool" where
  "tile_ok img t = (case t of (x1, x2, y1, y2) \<Rightarrow>
     0 \<le> x1 \<and> x1 \<le> x2 \<and> x2 \<le> int (rows img) \<and> 0 \<le> y1 \<and> y1 \<le> y2 \<and> y2 \<le> int (cols img))"

text \<open>A pixel inside the rectangle \<open>[x1, x2) \<times> [y1, y2)\<close> of a box.\<close>

definition in_box :: "box \<Rightarrow> nat \<Rightarrow> nat \<Rightarrow> bool" where
  "in_box b r c =
     (case b of (x1, y1, x2, y2) \<Rightarrow> x1 \<le> int c \<and> int c < x2 \<and> y1 \<le> int r \<and> int r < y2)"

text \<open>Running \<open>anonymize\<close> on its own output with the same boxes.\<close>

definition anonymize_twice :: "'a cv2 \<Rightarrow> params \<Rightarrow> 'a image \<Rightarrow> box list \<Rightarrow> error + 'a image" where
  "anonymize_twice cv ps img bs =
     (case anonymize cv ps img bs of
        Inl e \<Rightarrow> Inl e
      | Inr out \<Rightarrow> anonymize cv ps out bs)"

text \<open>Whether coordinate \<open>p\<close> of an axis of length \<open>d\<close> lies in one of the intervals the
  tiling generates for window size \<open>s\<close>.\<close>

definition axis_covered :: "int \<Rightarrow> int \<Rightarrow> int \<Rightarrow> bool" where
  "axis_covered d s p =
     (case axis_intervals d s of
        Inl e \<Rightarrow> False
      | Inr iv \<Rightarrow> list_ex (\<lambda>(a, b). a \<le> p \<and> p < b) iv)"

text \<open>
  The tiling as the specification words it, for comparison with \<open>axis_intervals\<close>:
  \<open>ceil(d / stride)\<close> tiles with stride \<open>s / 2\<close>, each of width \<open>s\<close>, the last ones
  clipped to the frame.
\<close>

definition spec_axis_intervals :: "int \<Rightarrow> int \<Rightarrow> (int \<times> int) list" where
  "spec_axis_intervals d s =
     map (\<lambda>k. (py_int (of_int k * (of_int s / 2)), min d (py_int (of_int k * (of_int s / 2)) + s)))
       (py_range (py_ceil (of_int d / (of_int s / 2))))"

text \<open>The parameters \<open>FaceAnonymizer()\<close> takes by default (lines 22-26).\<close>

definition default_params :: params where
  "default_params =
     \<lparr>face_min_size = 5, face_expand = 1 / 5, pixelation_factor = 20, window_sizes = [400, 700]\<rparr>"

text \<open>A frame of one colour, and a frame that is black except for its top-left pixel.\<close>

definition blank_frame :: "nat \<Rightarrow> nat \<Rightarrow> nat image" where
  "blank_frame h w = \<lparr>rows = h, cols = w, px = (\<lambda>r c. 0)\<rparr>"

definition spot_frame :: "nat image" where
  "spot_frame = \<lparr>rows = 2, cols = 2, px = (\<lambda>r c. if r = 0 \<and> c = 0 then 100 else 0)\<rparr>"

text \<open>An instance of \<open>cv2.resize\<close> for the examples: the mean, rounded down, over the
  source block of each destination pixel. On the example inputs below (a 2 by 2 frame
  reduced to 1 by 1 and enlarged back to 2 by 2, and frames of one colour) this is what
  both the bilinear reduction of line 97 and the \<open>INTER_AREA\<close> enlargement of line 98
  compute.\<close>

definition block_mean :: "nat image \<Rightarrow> int \<times> int \<Rightarrow> nat \<Rightarrow> nat \<Rightarrow> nat" where
  "block_mean src dsize r c =
     (let dh = nat (snd dsize); dw = nat (fst dsize);
          r0 = r * rows src div dh; r1 = max (r0 + 1) ((r + 1) * rows src div dh);
          c0 = c * cols src div dw; c1 = max (c0 + 1) ((c + 1) * cols src div dw);
          block = concat (map (\<lambda>i. map (\<lambda>j. px src i j) [c0..<c1]) [r0..<r1])
      in sum_list block div length block)"

definition mean_cv :: "nat cv2" where
  "mean_cv = \<lparr>resize_linear = block_mean, resize_area = block_mean\<rparr>"

text \<open>A detector that reports one face at \<open>(0.3, 0.3)\<close> of relative size \<open>0.2\<close> in every
  image, and one that reports a face over the top-left tenth.\<close>

definition one_face :: "nat detector" where
  "one_face img = Inr [\<lparr>xmin = 3 / 10, ymin = 3 / 10, width = 1 / 5, height = 1 / 5\<rparr>]"

definition corner_face :: "nat detector" where
  "corner_face img = Inr [\<lparr>xmin = 0, ymin = 0, width = 1 / 10, height = 1 / 10\<rparr>]"

text \<open>Reading one pixel of a result.\<close>

definition pixel_at :: "nat \<Rightarrow> nat \<Rightarrow> error + 'a image \<Rightarrow> 'a option" where
  "pixel_at r c res = (case res of Inl e \<Rightarrow> None | Inr img \<Rightarrow> Some (px img r c))"

text \<open>The default parameters with pixelation factor 2.\<close>

definition spot_params :: params where
  "spot_params = default_params\<lparr>pixelation_factor := 2\<rparr>"

text \<open>The sort key of line 214 and the filter of lines 208-212.\<close>

definition is_image :: "entry \<Rightarrow> bool" where
  "is_image f = (suffix f \<in> set image_extensions)"

definition eligible :: "entry list \<Rightarrow> entry list" where
  "eligible entries = filter (\<lambda>f. is_file f \<and> suffix f \<in> set supported_extensions) entries"

text \<open>The order the specification gives for a batch: the eligible images in the order
  of enumeration, then the other eligible files in the order of enumeration.\<close>

definition images_then_videos :: "entry list \<Rightarrow> entry list" where
  "images_then_videos entries =
     filter is_image (eligible entries) @ filter (\<lambda>f. \<not> is_image f) (eligible entries)"


definition both_callbacks :: callbacks where
  "both_callbacks = \<lparr>local_progress_callback = True, global_progress_callback = True\<rparr>"

definition no_callbacks :: callbacks where
  "no_callbacks = \<lparr>local_progress_callback = False, global_progress_callback = False\<rparr>"

definition two_frames :: "nat capture" where
  "two_frames = \<lparr>opened = True, frames = [spot_frame, spot_frame], frame_count = 2\<rparr>"

definition demo_world :: "nat world" where
  "demo_world = \<lparr>imread = (\<lambda>p. Some spot_frame), video_capture = (\<lambda>p. two_frames),
     out_filepath = (\<lambda>p. ''out/'' @ p)\<rparr>"

definition unreadable_world :: "nat world" where
  "unreadable_world =
     demo_world\<lparr>imread := (\<lambda>p. if p = ''sub/c.jpg'' then None else Some spot_frame)\<rparr>"

definition demo_entries :: "entry list" where
  "demo_entries =
     [\<lparr>path_name = ''a.mp4'', suffix = ''.mp4'', is_file = True\<rparr>,
      \<lparr>path_name = ''b.png'', suffix = ''.png'', is_file = True\<rparr>,
      \<lparr>path_name = ''sub'', suffix = [], is_file = False\<rparr>,
      \<lparr>path_name = ''sub/c.jpg'', suffix = ''.jpg'', is_file = True\<rparr>,
      \<lparr>path_name = ''notes.txt'', suffix = ''.txt'', is_file = True\<rparr>,
      \<lparr>path_name = ''sub/d.avi'', suffix = ''.avi'', is_file = True\<rparr>]"

text \<open>The progress property as the specification words it: both sequences
  non-decreasing and both reaching 1.0.\<close>

definition spec_progress :: "'a event list \<Rightarrow> bool" where
  "spec_progress tr =
     (sorted (local_values tr) \<and> sorted (global_values tr) \<and>
      1 \<in> set (local_values tr) \<and> 1 \<in> set (global_values tr))"

text \<open>The number of tiles along an axis of length \<open>d\<close> for window size \<open>s\<close>, and
  their common extent, in integer arithmetic: \<open>ceil(2d / s)\<close> and \<open>d div count\<close>.\<close>

definition grid_count :: "int \<Rightarrow> int \<Rightarrow> int" where
  "grid_count d s = - ((- (2 * d)) div s)"

definition grid_step :: "int \<Rightarrow> int \<Rightarrow> int" where
  "grid_step d s = d div grid_count d s"

section \<open>Arithmetic of the Python primitives\<close>

lemma py_int_div_nonneg:
  assumes "0 \<le> d" "0 < n"
  shows "py_int (of_int d / of_int n) = d div n"
proof -
  have "(0::rat) \<le> of_int d / of_int n" using assms by simp
  then show ?thesis
    by (simp add: py_int_def floor_divide_of_int_eq)
qed

lemma py_ceil_div:
  "py_ceil (of_int a / of_int b) = - ((- a) div b)"
proof -
  have "\<lceil>(of_int a / of_int b :: rat)\<rceil> = - \<lfloor>of_int (- a) / (of_int b :: rat)\<rfloor>"
    by (simp add: ceiling_def)
  also have "\<dots> = - ((- a) div b)"
    by (simp only: floor_divide_of_int_eq)
  finally show ?thesis by (simp add: py_ceil_def)
qed

lemma clamp_filter_ok:
  assumes "0 \<le> m" "\<not> too_small m (clamp w h b)"
  shows "box_ok w h m (clamp w h b)"
  using assms by (cases b) (auto simp: too_small_def clamp_def box_ok_def)

lemma process_img_ok:
  assumes "process_img det ps im = Inr bs" "0 \<le> face_min_size ps" "b \<in> set bs"
  shows "box_ok (int (cols im)) (int (rows im)) (face_min_size ps) b"
  using assms
  by (auto simp: process_img_def Let_def split: sum.splits intro: clamp_filter_ok)

lemma axis_intervals_ok:
  assumes "axis_intervals d s = Inr iv" "0 \<le> d" "(a, b) \<in> set iv"
  shows "0 \<le> a \<and> a \<le> b \<and> b \<le> d"
proof -
  from assms(1) obtain n st where n: "axis_windows d s = Inr n"
    and st: "axis_step d n = Inr st"
    and iv: "iv = map (\<lambda>i. (i * st, (i + 1) * st)) (py_range n)"
    by (auto simp: axis_intervals_def split: sum.splits)
  from assms(3) iv have "\<exists>k<nat n. a = int k * st \<and> b = (int k + 1) * st"
    by (auto simp: py_range_def)
  then obtain k where k: "k < nat n" "a = int k * st" "b = (int k + 1) * st" by blast
  define i where "i = int k"
  have i: "0 \<le> i" "i < n" "a = i * st" "b = (i + 1) * st"
    using k by (auto simp: i_def)
  then have npos: "0 < n" by simp
  with st assms(2) have st_eq: "st = d div n"
    by (auto simp: axis_step_def py_truediv_def py_int_div_nonneg split: if_splits)
  have st0: "0 \<le> st" using st_eq assms(2) npos by (simp add: pos_imp_zdiv_nonneg_iff)
  have "0 \<le> d mod n" using npos by simp
  moreover have "d = n * (d div n) + d mod n" by simp
  ultimately have "n * st \<le> d" unfolding st_eq by linarith
  moreover have "(i + 1) * st \<le> n * st" using i st0 by (intro mult_right_mono) auto
  ultimately have "b \<le> d" using i by simp
  moreover have "0 \<le> a" using i st0 by simp
  moreover have "a \<le> b" using i st0 by (simp add: algebra_simps)
  ultimately show ?thesis by simp
qed


lemma slice_bound_id: "0 \<le> i \<Longrightarrow> i \<le> int n \<Longrightarrow> slice_bound n i = nat i"
  by (auto simp: slice_bound_def)

lemma crop_shape:
  assumes "0 \<le> a" "a \<le> b" "b \<le> int (rows img)" "0 \<le> c" "c \<le> d" "d \<le> int (cols img)"
  shows "int (rows (crop img a b c d)) = b - a" "int (cols (crop img a b c d)) = d - c"
  using assms by (auto simp: crop_def Let_def slice_bound_id)

lemma sliding_window_tiles_ok:
  assumes "sliding_window_tiles img s = Inr ts" "t \<in> set ts"
  shows "tile_ok img t"
  using assms
  by (auto simp: sliding_window_tiles_def Let_def tile_ok_def split: sum.splits
      dest!: axis_intervals_ok)

lemma window_boxes_ok:
  assumes "window_boxes det ps img t = Inr bs" "tile_ok img t" "0 \<le> face_min_size ps"
    "b \<in> set bs"
  shows "box_ok (int (cols img)) (int (rows img)) (face_min_size ps) b"
proof -
  obtain x1 x2 y1 y2 where t: "t = (x1, x2, y1, y2)" by (cases t) auto
  from assms(1) t obtain fs where fs: "process_img det ps (crop img x1 x2 y1 y2) = Inr fs"
    and bs: "bs = map (\<lambda>(fx1, fy1, fx2, fy2). (y1 + fx1, x1 + fy1, y1 + fx2, x1 + fy2)) fs"
    by (auto simp: window_boxes_def split: sum.splits)
  from assms(4) bs obtain f where f: "f \<in> set fs"
    and b: "b = (case f of (fx1, fy1, fx2, fy2) \<Rightarrow> (y1 + fx1, x1 + fy1, y1 + fx2, x1 + fy2))"
    by auto
  from assms(2) t have tok: "0 \<le> x1" "x1 \<le> x2" "x2 \<le> int (rows img)"
    "0 \<le> y1" "y1 \<le> y2" "y2 \<le> int (cols img)"
    by (auto simp: tile_ok_def)
  have "box_ok (y2 - y1) (x2 - x1) (face_min_size ps) f"
    using process_img_ok[OF fs assms(3) f] crop_shape[OF tok] by simp
  then show ?thesis using b tok
    by (cases f) (auto simp: box_ok_def)
qed

lemma apply_boxes_shape [simp]:
  "rows (apply_boxes P img bs) = rows img" "cols (apply_boxes P img bs) = cols img"
  by (induction bs arbitrary: img) (auto simp: apply_boxes_def copy_region_def)

lemma tile_ok_shape: "rows i1 = rows i2 \<Longrightarrow> cols i1 = cols i2 \<Longrightarrow> tile_ok i1 t = tile_ok i2 t"
  by (auto simp: tile_ok_def)

lemma scan_tiles_ok:
  assumes "0 \<le> face_min_size ps"
    "\<forall>t\<in>set ts. tile_ok img t"
    "\<forall>b\<in>set acc. box_ok (int (cols img)) (int (rows img)) (face_min_size ps) b"
    "scan_tiles P det ps ts acc img = (acc', res)"
  shows "(\<forall>b\<in>set acc'. box_ok (int (cols img)) (int (rows img)) (face_min_size ps) b) \<and>
         (\<forall>img'. res = Inr img' \<longrightarrow> rows img' = rows img \<and> cols img' = cols img)"
  using assms(2-)
proof (induction ts arbitrary: acc img)
  case Nil
  from Nil.prems(3) have "acc' = acc" "res = Inr img" by simp_all
  with Nil.prems(2) show ?case by simp
next
  case (Cons t ts)
  show ?case
  proof (cases "window_boxes det ps img t")
    case (Inl e)
    with Cons.prems(3) have "acc' = acc" "res = Inl e" by simp_all
    with Cons.prems(2) show ?thesis by simp
  next
    case (Inr bs)
    let ?img = "apply_boxes P img bs"
    have tok: "tile_ok img t" using Cons.prems(1) by simp
    have 1: "\<forall>t\<in>set ts. tile_ok ?img t"
    proof
      fix u assume "u \<in> set ts"
      with Cons.prems(1) have "tile_ok img u" by simp
      then show "tile_ok ?img u" by (simp add: tile_ok_def)
    qed
    have 2: "\<forall>b\<in>set (acc @ bs). box_ok (int (cols ?img)) (int (rows ?img)) (face_min_size ps) b"
    proof
      fix b assume "b \<in> set (acc @ bs)"
      then have "b \<in> set acc \<or> b \<in> set bs" by simp
      then have "box_ok (int (cols img)) (int (rows img)) (face_min_size ps) b"
      proof
        assume "b \<in> set acc"
        with Cons.prems(2) show ?thesis by blast
      next
        assume "b \<in> set bs"
        from window_boxes_ok[OF Inr tok assms(1) this] show ?thesis .
      qed
      then show "box_ok (int (cols ?img)) (int (rows ?img)) (face_min_size ps) b" by simp
    qed
    have 3: "scan_tiles P det ps ts (acc @ bs) ?img = (acc', res)"
      using Cons.prems(3) Inr by simp
    have "(\<forall>b\<in>set acc'. box_ok (int (cols ?img)) (int (rows ?img)) (face_min_size ps) b) \<and>
         (\<forall>img'. res = Inr img' \<longrightarrow> rows img' = rows ?img \<and> cols img' = cols ?img)"
      by (rule Cons.IH[OF 1 2 3])
    then show ?thesis by (simp only: apply_boxes_shape)
  qed
qed

lemma sliding_windows_ok:
  assumes "0 \<le> face_min_size ps"
    "\<forall>b\<in>set acc. box_ok (int (cols img)) (int (rows img)) (face_min_size ps) b"
    "sliding_windows P det ps ss acc img = (acc', res)"
  shows "(\<forall>b\<in>set acc'. box_ok (int (cols img)) (int (rows img)) (face_min_size ps) b) \<and>
         (\<forall>img'. res = Inr img' \<longrightarrow> rows img' = rows img \<and> cols img' = cols img)"
  using assms(2-)
proof (induction ss arbitrary: acc img)
  case Nil
  then show ?case by auto
next
  case (Cons s ss)
  show ?case
  proof (cases "sliding_window_tiles img s")
    case (Inl e)
    with Cons.prems show ?thesis by auto
  next
    case (Inr ts)
    obtain acc1 res1 where sc: "scan_tiles P det ps ts acc img = (acc1, res1)"
      by (cases "scan_tiles P det ps ts acc img") auto
    have tiles: "\<forall>t\<in>set ts. tile_ok img t"
      using sliding_window_tiles_ok[OF Inr] by blast
    note inv = scan_tiles_ok[OF assms(1) tiles Cons.prems(1) sc]
    have step: "sliding_windows P det ps (s # ss) acc img =
        (case res1 of Inl e \<Rightarrow> (acc1, Inl e)
         | Inr img' \<Rightarrow> sliding_windows P det ps ss acc1 img')"
      by (simp add: Inr sc split: sum.splits)
    show ?thesis
    proof (cases res1)
      case (Inl e)
      with step Cons.prems(2) have "acc' = acc1" "res = Inl e" by simp_all
      with inv show ?thesis by blast
    next
      case r: (Inr img1)
      from inv r have sh: "rows img1 = rows img" "cols img1 = cols img" by blast+
      have rec: "sliding_windows P det ps ss acc1 img1 = (acc', res)"
        using Cons.prems(2) step r by simp
      have "\<forall>b\<in>set acc1. box_ok (int (cols img1)) (int (rows img1)) (face_min_size ps) b"
        using inv sh by simp
      from Cons.IH[OF this rec] show ?thesis by (simp only: sh)
    qed
  qed
qed

lemma process_trace_unfold:
  assumes "mosaic cv ps img = Inr P"
    and "sliding_windows P det ps (window_sizes ps) [] img = (acc1, res1)"
  shows "process_trace cv det ps img =
     (case res1 of
        Inl e \<Rightarrow> (acc1, Inl e)
      | Inr img' \<Rightarrow>
          (case process_img det ps img' of
             Inl e \<Rightarrow> (acc1, Inl e)
           | Inr bs \<Rightarrow> (acc1 @ bs, Inr (apply_boxes P img' bs))))"
  unfolding process_trace_def assms(1) by (simp add: assms(2) split: sum.splits)



section \<open>The example run: one face in a blank 100 by 100 frame\<close>

lemma one_face_boxes:
  assumes "rows I = 100" "cols I = 100"
  shows "process_img one_face default_params I = Inr [(26, 26, 54, 54)]"
proof -
  have "process_img one_face default_params I =
        process_img one_face default_params (blank_frame 100 100)"
    by (simp add: process_img_def one_face_def blank_frame_def assms)
  also have "\<dots> = Inr [(26, 26, 54, 54)]" by code_simp
  finally show ?thesis .
qed

lemma demo_intervals:
  "axis_intervals 100 400 = Inr [(0, 100)]" "axis_intervals 100 700 = Inr [(0, 100)]"
  by code_simp+

lemma demo_tiles:
  assumes "rows I = 100" "cols I = 100"
  shows "sliding_window_tiles I 400 = Inr [(0, 100, 0, 100)]"
    "sliding_window_tiles I 700 = Inr [(0, 100, 0, 100)]"
  by (simp_all add: sliding_window_tiles_def assms demo_intervals)

lemma demo_window:
  assumes "rows I = 100" "cols I = 100"
  shows "window_boxes one_face default_params I (0, 100, 0, 100) = Inr [(26, 26, 54, 54)]"
proof -
  have "rows (crop I 0 100 0 100) = 100" "cols (crop I 0 100 0 100) = 100"
    by (simp_all add: crop_def slice_bound_def assms)
  then have "process_img one_face default_params (crop I 0 100 0 100) = Inr [(26, 26, 54, 54)]"
    by (rule one_face_boxes)
  then show ?thesis by (simp add: window_boxes_def)
qed

lemma demo_sliding:
  assumes "rows I = 100" "cols I = 100"
  shows "fst (sliding_windows P one_face default_params [400, 700] [] I) =
           [(26, 26, 54, 54), (26, 26, 54, 54)]"
    "\<exists>I'. snd (sliding_windows P one_face default_params [400, 700] [] I) = Inr I'
        \<and> rows I' = 100 \<and> cols I' = 100"
  by (simp_all add: demo_tiles demo_window assms)

lemma demo_mosaic:
  "\<exists>P. mosaic mean_cv default_params (blank_frame 100 100) = Inr P"
  by (simp add: mosaic_def mean_cv_def default_params_def blank_frame_def py_truediv_def
      py_int_def cv_resize_def)

lemma demo_detected:
  "detected_boxes mean_cv one_face default_params (blank_frame 100 100) =
     [(26, 26, 54, 54), (26, 26, 54, 54), (26, 26, 54, 54)]"
proof -
  let ?F = "blank_frame 100 100"
  have sh: "rows ?F = 100" "cols ?F = 100" by (simp_all add: blank_frame_def)
  from demo_mosaic obtain P where P: "mosaic mean_cv default_params ?F = Inr P" by blast
  have ws: "window_sizes default_params = [400, 700]" by (simp add: default_params_def)
  obtain acc res where sw: "sliding_windows P one_face default_params [400, 700] [] ?F = (acc, res)"
    by (cases "sliding_windows P one_face default_params [400, 700] [] ?F") blast
  from demo_sliding[OF sh, of P] sw obtain I' where acc: "acc = [(26, 26, 54, 54), (26, 26, 54, 54)]"
    and res: "res = Inr I'" and sh': "rows I' = 100" "cols I' = 100" by auto
  have full: "process_img one_face default_params I' = Inr [(26, 26, 54, 54)]"
    by (rule one_face_boxes[OF sh'])
  show ?thesis
    unfolding detected_boxes_def process_trace_unfold[OF P sw[folded ws]]
    by (simp add: res full acc)
qed

section \<open>Properties of the boxes\<close>

text \<open>
  C3. Every box yielded during \<open>process\<close> (all sliding-window passes, then the
  full-frame pass), whatever the detector and the resize functions return, lies inside
  the frame and is at least \<open>face_min_size\<close> wide and high, provided
  \<open>face_min_size\<close> is not negative: \<open>0 \<le> x1 \<le> x2 \<le> W\<close>, \<open>0 \<le> y1 \<le> y2 \<le> H\<close>,
  \<open>x2 - x1 \<ge> face_min_size\<close> and \<open>y2 - y1 \<ge> face_min_size\<close>, where \<open>W\<close> is the number
  of columns and \<open>H\<close> the number of rows.
\<close>

theorem box_invariant:
  assumes "0 \<le> face_min_size ps"
    and "b \<in> set (detected_boxes cv det ps img)"
  shows "box_ok (int (cols img)) (int (rows img)) (face_min_size ps) b"
proof (cases "mosaic cv ps img")
  case (Inl e)
  then have "process_trace cv det ps img = ([], Inl e)"
    unfolding process_trace_def by simp
  with assms(2) show ?thesis by (simp add: detected_boxes_def)
next
  case (Inr P)
  obtain acc1 res1 where sw: "sliding_windows P det ps (window_sizes ps) [] img = (acc1, res1)"
    by (cases "sliding_windows P det ps (window_sizes ps) [] img") blast
  have base: "\<forall>b\<in>set []. box_ok (int (cols img)) (int (rows img)) (face_min_size ps) b"
    by simp
  note inv = sliding_windows_ok[OF assms(1) base sw]
  note tr = process_trace_unfold[OF Inr sw]
  show ?thesis
  proof (cases res1)
    case (Inl e)
    with tr have "detected_boxes cv det ps img = acc1" by (simp add: detected_boxes_def)
    with assms(2) inv show ?thesis by blast
  next
    case r: (Inr img1)
    with inv have sh: "rows img1 = rows img" "cols img1 = cols img" by blast+
    show ?thesis
    proof (cases "process_img det ps img1")
      case (Inl e)
      with tr r have "detected_boxes cv det ps img = acc1" by (simp add: detected_boxes_def)
      with assms(2) inv show ?thesis by blast
    next
      case full: (Inr bs)
      with tr r have "detected_boxes cv det ps img = acc1 @ bs"
        by (simp add: detected_boxes_def)
      with assms(2) have "b \<in> set acc1 \<or> b \<in> set bs" by simp
      then show ?thesis
      proof
        assume "b \<in> set acc1"
        with inv show ?thesis by blast
      next
        assume "b \<in> set bs"
        from process_img_ok[OF full assms(1) this] sh show ?thesis by simp
      qed
    qed
  qed
qed

theorem box_invariant_witness:
  "0 \<le> face_min_size default_params \<and>
   (26, 26, 54, 54) \<in> set (detected_boxes mean_cv one_face default_params (blank_frame 100 100)) \<and>
   box_ok 100 100 5 (26, 26, 54, 54)"
proof -
  have f: "0 \<le> face_min_size default_params" by (simp add: default_params_def)
  have m: "(26, 26, 54, 54) \<in>
      set (detected_boxes mean_cv one_face default_params (blank_frame 100 100))"
    by (simp add: demo_detected)
  have "box_ok (int (cols (blank_frame 100 100))) (int (rows (blank_frame 100 100)))
      (face_min_size default_params) (26, 26, 54, 54)"
    by (rule box_invariant[OF f m])
  then have "box_ok 100 100 5 (26, 26, 54, 54)"
    by (simp add: default_params_def blank_frame_def)
  with f m show ?thesis by simp
qed

section \<open>Properties of the tiling\<close>

lemma mult_div_le_int:
  assumes "0 < (n::int)"
  shows "n * (a div n) \<le> a"
proof -
  have "0 \<le> a mod n" using assms by simp
  moreover have "a = n * (a div n) + a mod n" by simp
  ultimately show ?thesis by linarith
qed

lemma axis_windows_eq:
  assumes "1 \<le> s"
  shows "axis_windows d s = Inr (grid_count d s)"
proof -
  have "(of_int d :: rat) / (of_int s / 2) = of_int (2 * d) / of_int s" by simp
  then have "py_ceil (of_int d / (of_int s / 2)) = grid_count d s"
    by (simp only: py_ceil_div grid_count_def)
  moreover have "(of_int s / 2 :: rat) \<noteq> 0" using assms by simp
  ultimately show ?thesis by (simp add: axis_windows_def py_truediv_def)
qed

lemma grid_count_bounds:
  assumes "1 \<le> d" "1 \<le> s"
  shows "1 \<le> grid_count d s" "2 * d \<le> grid_count d s * s"
proof -
  let ?q = "(- (2 * d)) div s"
  have spos: "0 < s" using assms by simp
  have sq: "s * ?q \<le> - (2 * d)" by (rule mult_div_le_int[OF spos])
  then have "?q * s \<le> - (2 * d)" by (simp only: mult.commute)
  then show "2 * d \<le> grid_count d s * s" by (simp add: grid_count_def)
  have "?q < 0"
  proof (rule ccontr)
    assume "\<not> ?q < 0"
    then have "0 \<le> s * ?q" using spos by simp
    with sq assms(1) show False by linarith
  qed
  then show "1 \<le> grid_count d s" by (simp add: grid_count_def)
qed

lemma axis_intervals_grid:
  assumes "1 \<le> d" "1 \<le> s"
  shows "axis_intervals d s =
           Inr (map (\<lambda>i. (i * grid_step d s, (i + 1) * grid_step d s)) (py_range (grid_count d s)))"
    and "2 * grid_step d s \<le> s"
    and "grid_count d s * grid_step d s \<le> d"
    and "0 \<le> grid_step d s"
proof -
  let ?n = "grid_count d s"
  let ?st = "grid_step d s"
  note nb = grid_count_bounds[OF assms]
  have npos: "0 < ?n" using nb(1) by simp
  have d0: "0 \<le> d" using assms by simp
  have "axis_step d ?n = Inr ?st"
    using npos by (simp add: axis_step_def py_truediv_def py_int_div_nonneg[OF d0 npos] grid_step_def)
  then show "axis_intervals d s =
           Inr (map (\<lambda>i. (i * ?st, (i + 1) * ?st)) (py_range ?n))"
    by (simp add: axis_intervals_def axis_windows_eq[OF assms(2)])
  show le: "?n * ?st \<le> d" unfolding grid_step_def by (rule mult_div_le_int[OF npos])
  show st0: "0 \<le> ?st" unfolding grid_step_def using d0 npos by (simp add: pos_imp_zdiv_nonneg_iff)
  have "?n * (2 * ?st) \<le> 2 * d" using le by simp
  also have "\<dots> \<le> ?n * s" using nb(2) by (simp add: mult.commute)
  finally have "?n * (2 * ?st) \<le> ?n * s" .
  then show "2 * ?st \<le> s" using npos by simp
qed

text \<open>
  C2 says that the tile intervals along an axis cover \<open>[0, d)\<close> for every \<open>d \<ge> 1\<close> and
  \<open>s \<ge> 1\<close>. The code truncates the step (\<open>int(w / windows_x)\<close>, line 123) and ends the
  last tile at \<open>windows * step\<close>, so the remainder of the division is left out: along
  the 1280 columns of a 1280 by 720 frame with the default window size 400 the seven
  tiles end at 1274 and column 1279 lies in none; with \<open>d = 1\<close>, \<open>s = 1\<close> the step is 0
  and both tiles are empty.
\<close>

theorem tiling_gap:
  "axis_intervals 1280 400 =
     Inr [(0, 182), (182, 364), (364, 546), (546, 728), (728, 910), (910, 1092), (1092, 1274)] \<and>
   \<not> axis_covered 1280 400 1279 \<and> \<not> axis_covered 1 1 0"
  by code_simp

text \<open>
  C5 as stated (tiles of width and height \<open>s\<close>, origins \<open>s / 2\<close> apart) fails: along the
  1080 rows of a 1920 by 1080 frame with \<open>s = 400\<close> the code yields six intervals of
  extent 180, \<open>[0, 180), [180, 360), \<dots>\<close>, where the wording gives
  \<open>[0, 400), [200, 600), \<dots>\<close>.
\<close>

theorem tiles_not_window_sized:
  "axis_intervals 1080 400 \<noteq> Inr (spec_axis_intervals 1080 400)"
  by code_simp

text \<open>
  C5, amended. For a frame with at least one row and one column and a window size
  \<open>s \<ge> 1\<close>, the tiles generated for \<open>s\<close> form a grid: along an axis of length \<open>d\<close>
  there are \<open>n = ceil(2d / s)\<close> intervals \<open>[i * step, (i + 1) * step)\<close> with
  \<open>step = d div n\<close>, so successive origins are one step apart and each tile ends where
  the next begins (no overlap); a tile is \<open>step_x\<close> rows by \<open>step_y\<close> columns, each
  step is at most \<open>s / 2\<close>, and no tile extends beyond the frame.
\<close>

theorem sliding_window_grid:
  assumes "1 \<le> rows img" "1 \<le> cols img" "1 \<le> s"
  shows "sliding_window_tiles img s =
           Inr (concat (map (\<lambda>(x1, x2). map (\<lambda>(y1, y2). (x1, x2, y1, y2))
                  (map (\<lambda>j. (j * grid_step (int (cols img)) s, (j + 1) * grid_step (int (cols img)) s))
                     (py_range (grid_count (int (cols img)) s))))
                (map (\<lambda>i. (i * grid_step (int (rows img)) s, (i + 1) * grid_step (int (rows img)) s))
                   (py_range (grid_count (int (rows img)) s))))) \<and>
         2 * grid_step (int (rows img)) s \<le> s \<and> 2 * grid_step (int (cols img)) s \<le> s \<and>
         grid_count (int (rows img)) s * grid_step (int (rows img)) s \<le> int (rows img) \<and>
         grid_count (int (cols img)) s * grid_step (int (cols img)) s \<le> int (cols img)"
proof -
  have r: "1 \<le> int (rows img)" and c: "1 \<le> int (cols img)" using assms by simp_all
  note gr = axis_intervals_grid[OF r assms(3)]
  note gc = axis_intervals_grid[OF c assms(3)]
  have "sliding_window_tiles img s =
           Inr (concat (map (\<lambda>(x1, x2). map (\<lambda>(y1, y2). (x1, x2, y1, y2))
                  (map (\<lambda>j. (j * grid_step (int (cols img)) s, (j + 1) * grid_step (int (cols img)) s))
                     (py_range (grid_count (int (cols img)) s))))
                (map (\<lambda>i. (i * grid_step (int (rows img)) s, (i + 1) * grid_step (int (rows img)) s))
                   (py_range (grid_count (int (rows img)) s)))))"
    unfolding sliding_window_tiles_def Let_def gr(1) gc(1) by simp
  with gr(2,3) gc(2,3) show ?thesis by simp
qed

theorem sliding_window_grid_witness:
  "1 \<le> rows (blank_frame 1080 1920) \<and> 1 \<le> cols (blank_frame 1080 1920) \<and> (1::int) \<le> 400 \<and>
   grid_count 1080 400 = 6 \<and> grid_step 1080 400 = 180 \<and>
   grid_count 1920 400 = 10 \<and> grid_step 1920 400 = 192 \<and>
   2 * grid_step 1080 400 \<le> 400 \<and> grid_count 1080 400 * grid_step 1080 400 \<le> 1080"
proof -
  have h: "1 \<le> rows (blank_frame 1080 1920)" "1 \<le> cols (blank_frame 1080 1920)" "(1::int) \<le> 400"
    by (simp_all add: blank_frame_def)
  have v: "grid_count 1080 400 = 6" "grid_step 1080 400 = 180"
    "grid_count 1920 400 = 10" "grid_step 1920 400 = 192"
    by (simp_all add: grid_count_def grid_step_def)
  from sliding_window_grid[OF h] have
    "2 * grid_step (int (rows (blank_frame 1080 1920))) 400 \<le> 400"
    "grid_count (int (rows (blank_frame 1080 1920))) 400 *
       grid_step (int (rows (blank_frame 1080 1920))) 400 \<le> int (rows (blank_frame 1080 1920))"
    by blast+
  then have "2 * grid_step 1080 400 \<le> 400" "grid_count 1080 400 * grid_step 1080 400 \<le> 1080"
    by (simp_all add: blank_frame_def)
  with h v show ?thesis by simp
qed

section \<open>The expansion of a box\<close>

text \<open>The example of the specification: in a 100 by 100 frame the raw box
  \<open>(30, 30)-(50, 50)\<close> with \<open>face_expand = 0.2\<close> becomes \<open>(26, 26)-(54, 54)\<close>.\<close>

lemma expand_example:
  "clamp 100 100 (expand (1 / 5) (30, 30, 50, 50)) = (26, 26, 54, 54)"
  by code_simp

text \<open>
  C6 says each side moves outward by \<open>int(face_expand * dimension)\<close>, the same amount
  for both x-sides and for both y-sides. Lines 72-73 overwrite \<open>x1\<close> and \<open>y1\<close> before
  lines 74-75 compute \<open>x2 - x1\<close> and \<open>y2 - y1\<close>, so the right and bottom sides move by
  \<open>int(face_expand * (dimension + int(face_expand * dimension)))\<close>. In a 1000 by 1000
  frame a detection over the top-left tenth (raw box \<open>(0, 0)-(100, 100)\<close>) with
  \<open>face_expand = 0.2\<close> is expanded to \<open>(-20, -20)-(124, 124)\<close> and yielded as
  \<open>(0, 0)-(124, 124)\<close>: the left side moved by 20, which is \<open>int(0.2 * 100)\<close>, the
  right side by 24.
\<close>

theorem expand_asymmetric:
  "process_img corner_face default_params (blank_frame 1000 1000) = Inr [(0, 0, 124, 124)] \<and>
   expand (1 / 5) (0, 0, 100, 100) = (- 20, - 20, 124, 124) \<and>
   py_int (1 / 5 * of_int (100 - 0)) = 20"
  by code_simp

section \<open>Properties of the region copy\<close>

lemma in_slice_shape:
  "rows a = rows b \<Longrightarrow> cols a = cols b \<Longrightarrow> in_slice a bx r c = in_slice b bx r c"
  by (simp add: in_slice_def)

lemma copy_region_shape [simp]:
  "rows (copy_region P img b) = rows img" "cols (copy_region P img b) = cols img"
  by (simp_all add: copy_region_def)

lemma apply_boxes_Cons: "apply_boxes P img (b # bs) = apply_boxes P (copy_region P img b) bs"
  by (simp add: apply_boxes_def)

lemma apply_boxes_eq:
  "apply_boxes P img bs =
     img\<lparr>px := (\<lambda>r c. if (\<exists>b\<in>set bs. in_slice img b r c) then px P r c else px img r c)\<rparr>"
proof (induction bs arbitrary: img)
  case Nil
  show ?case by (simp add: apply_boxes_def)
next
  case (Cons b bs)
  let ?i = "copy_region P img b"
  have sl: "\<And>bx r c. in_slice ?i bx r c = in_slice img bx r c"
    by (rule in_slice_shape) simp_all
  have "apply_boxes P img (b # bs) =
      ?i\<lparr>px := (\<lambda>r c. if (\<exists>b\<in>set bs. in_slice ?i b r c) then px P r c else px ?i r c)\<rparr>"
    unfolding apply_boxes_Cons by (rule Cons.IH)
  also have "\<dots> = img\<lparr>px := (\<lambda>r c. if (\<exists>b'\<in>set (b # bs). in_slice img b' r c)
                                   then px P r c else px img r c)\<rparr>"
    unfolding sl by (auto simp: copy_region_def fun_eq_iff)
  finally show ?case .
qed

lemma apply_boxes_px:
  "px (apply_boxes P img bs) r c =
     (if (\<exists>b\<in>set bs. in_slice img b r c) then px P r c else px img r c)"
  by (simp add: apply_boxes_eq)

lemma apply_boxes_idempotent:
  "apply_boxes P (apply_boxes P img bs) bs = apply_boxes P img bs"
proof -
  have sl: "\<And>bx r c. in_slice (apply_boxes P img bs) bx r c = in_slice img bx r c"
    by (rule in_slice_shape) simp_all
  show ?thesis
    unfolding apply_boxes_eq[of P "apply_boxes P img bs"] sl
    unfolding apply_boxes_eq[of P img bs]
    by (auto simp: fun_eq_iff)
qed

text \<open>
  \<open>process\<close> and \<open>anonymize\<close> agree: when \<open>process\<close> returns a frame, that frame is what
  \<open>anonymize\<close> computes from the original frame and the boxes the generators yielded.
  The interleaving decides which boxes are detected, not how they are applied.
\<close>

lemma apply_boxes_append:
  "apply_boxes P img (a @ b) = apply_boxes P (apply_boxes P img a) b"
  by (simp add: apply_boxes_def)

lemma scan_tiles_applies:
  assumes "scan_tiles P det ps ts acc img = (acc', Inr img')"
  shows "\<exists>new. acc' = acc @ new \<and> img' = apply_boxes P img new"
  using assms
proof (induction ts arbitrary: acc img)
  case Nil
  then have "acc' = acc @ [] \<and> img' = apply_boxes P img []" by (simp add: apply_boxes_def)
  then show ?case by blast
next
  case (Cons t ts)
  show ?case
  proof (cases "window_boxes det ps img t")
    case (Inl e)
    with Cons.prems show ?thesis by simp
  next
    case (Inr bs)
    with Cons.prems have "scan_tiles P det ps ts (acc @ bs) (apply_boxes P img bs) = (acc', Inr img')"
      by simp
    from Cons.IH[OF this] obtain new where
      "acc' = (acc @ bs) @ new" "img' = apply_boxes P (apply_boxes P img bs) new" by blast
    then have "acc' = acc @ (bs @ new) \<and> img' = apply_boxes P img (bs @ new)"
      by (simp add: apply_boxes_append)
    then show ?thesis by blast
  qed
qed

lemma sliding_windows_applies:
  assumes "sliding_windows P det ps ss acc img = (acc', Inr img')"
  shows "\<exists>new. acc' = acc @ new \<and> img' = apply_boxes P img new"
  using assms
proof (induction ss arbitrary: acc img)
  case Nil
  then have "acc' = acc @ [] \<and> img' = apply_boxes P img []" by (simp add: apply_boxes_def)
  then show ?case by blast
next
  case (Cons s ss)
  show ?case
  proof (cases "sliding_window_tiles img s")
    case (Inl e)
    with Cons.prems show ?thesis by simp
  next
    case (Inr ts)
    obtain acc1 res1 where sc: "scan_tiles P det ps ts acc img = (acc1, res1)"
      by (cases "scan_tiles P det ps ts acc img") blast
    show ?thesis
    proof (cases res1)
      case (Inl e)
      with Cons.prems Inr sc show ?thesis by simp
    next
      case r: (Inr img1)
      from scan_tiles_applies[OF sc[unfolded r]] obtain n1 where
        n1: "acc1 = acc @ n1" "img1 = apply_boxes P img n1" by blast
      from Cons.prems Inr sc r have "sliding_windows P det ps ss acc1 img1 = (acc', Inr img')"
        by simp
      from Cons.IH[OF this] obtain n2 where
        n2: "acc' = acc1 @ n2" "img' = apply_boxes P img1 n2" by blast
      from n1 n2 have "acc' = acc @ (n1 @ n2) \<and> img' = apply_boxes P img (n1 @ n2)"
        by (simp add: apply_boxes_append)
      then show ?thesis by blast
    qed
  qed
qed

lemma process_is_anonymize:
  assumes "process cv det ps img = Inr out"
  shows "anonymize cv ps img (detected_boxes cv det ps img) = Inr out"
proof (cases "mosaic cv ps img")
  case (Inl e)
  then have "process_trace cv det ps img = ([], Inl e)" unfolding process_trace_def by simp
  with assms show ?thesis by (simp add: process_def)
next
  case (Inr P)
  obtain acc1 res1 where sw: "sliding_windows P det ps (window_sizes ps) [] img = (acc1, res1)"
    by (cases "sliding_windows P det ps (window_sizes ps) [] img") blast
  note tr = process_trace_unfold[OF Inr sw]
  show ?thesis
  proof (cases res1)
    case (Inl e)
    with tr assms show ?thesis by (simp add: process_def)
  next
    case r: (Inr img1)
    from sliding_windows_applies[OF sw[unfolded r]] have
      i1: "img1 = apply_boxes P img acc1" by simp
    show ?thesis
    proof (cases "process_img det ps img1")
      case (Inl e)
      with tr r assms show ?thesis by (simp add: process_def)
    next
      case full: (Inr bs)
      from tr r full have "process_trace cv det ps img = (acc1 @ bs, Inr (apply_boxes P img1 bs))"
        by simp
      with assms have "detected_boxes cv det ps img = acc1 @ bs" "out = apply_boxes P img1 bs"
        by (simp_all add: process_def detected_boxes_def)
      then show ?thesis by (simp add: anonymize_def Inr apply_boxes_append i1)
    qed
  qed
qed

lemma in_slice_in_box:
  assumes "box_ok (int (cols img)) (int (rows img)) m b" "in_slice img b r c"
  shows "in_box b r c"
  using assms by (cases b) (auto simp: box_ok_def in_slice_def in_box_def slice_bound_def)

lemma spot_mosaic:
  assumes "rows I = 2" "cols I = 2"
  shows "mosaic cv spot_params I =
           Inr \<lparr>rows = 2, cols = 2,
                px = resize_area cv \<lparr>rows = 1, cols = 1, px = resize_linear cv I (1, 1)\<rparr> (2, 2)\<rparr>"
  by (simp add: mosaic_def spot_params_def default_params_def py_truediv_def py_int_def
      cv_resize_def assms)

lemma twice1: "pixel_at 0 0 (anonymize mean_cv spot_params spot_frame [(0, 0, 1, 1)]) = Some 25"
  by (simp add: pixel_at_def anonymize_def mosaic_def mean_cv_def spot_params_def default_params_def
      spot_frame_def py_truediv_def py_int_def cv_resize_def apply_boxes_def copy_region_def
      in_slice_def slice_bound_def block_mean_def Let_def)

lemma twice2:
  "pixel_at 0 0 (anonymize_twice mean_cv spot_params spot_frame [(0, 0, 1, 1)]) = Some 6"
  by (simp add: pixel_at_def anonymize_twice_def anonymize_def mosaic_def mean_cv_def spot_params_def
      default_params_def spot_frame_def py_truediv_def py_int_def cv_resize_def apply_boxes_def
      copy_region_def in_slice_def slice_bound_def block_mean_def Let_def)

text \<open>
  C1. For every frame, every pair of resize functions and every two sequences of boxes
  with the same members, \<open>anonymize\<close> returns the same result: every region is copied
  from the one mosaic computed before the loop, so a permutation of the sequence, or
  a sequence with some boxes repeated, gives a pixel-identical frame (and the same
  exception when the mosaic cannot be computed).
\<close>

theorem anonymize_order_irrelevant:
  assumes "set bs' = set bs"
  shows "anonymize cv ps img bs' = anonymize cv ps img bs"
proof -
  have "\<And>P. apply_boxes P img bs' = apply_boxes P img bs"
    by (simp add: apply_boxes_eq assms)
  then show ?thesis by (simp add: anonymize_def split: sum.splits)
qed

theorem anonymize_order_irrelevant_witness:
  "set [(1, 1, 2, 2), (0, 0, 1, 1), (0, 0, 1, 1)] = set [(0, 0, 1, 1), (1, 1, 2, 2 :: int)] \<and>
   anonymize mean_cv spot_params spot_frame [(1, 1, 2, 2), (0, 0, 1, 1), (0, 0, 1, 1)] =
   anonymize mean_cv spot_params spot_frame [(0, 0, 1, 1), (1, 1, 2, 2)]"
proof -
  have s: "set [(1, 1, 2, 2), (0, 0, 1, 1), (0, 0, 1, 1)] = set [(0, 0, 1, 1), (1, 1, 2, 2 :: int)]"
    by auto
  from anonymize_order_irrelevant[OF s] s show ?thesis by blast
qed

text \<open>
  C7. When \<open>anonymize\<close> returns a frame for boxes that lie inside the input frame
  (\<open>0 \<le> x1 \<le> x2 \<le> W\<close>, \<open>0 \<le> y1 \<le> y2 \<le> H\<close>, as \<open>process_img\<close> yields them), every
  pixel that lies in none of the rectangles \<open>[x1, x2) \<times> [y1, y2)\<close> has the value it has
  in the input, and the shape of the frame is unchanged.
\<close>

theorem outside_boxes_unchanged:
  assumes "anonymize cv ps img bs = Inr out"
    and "\<forall>b\<in>set bs. box_ok (int (cols img)) (int (rows img)) m b"
    and "\<forall>b\<in>set bs. \<not> in_box b r c"
  shows "px out r c = px img r c \<and> rows out = rows img \<and> cols out = cols img"
proof -
  from assms(1) obtain P where out: "out = apply_boxes P img bs"
    by (auto simp: anonymize_def split: sum.splits)
  have "\<not> (\<exists>b\<in>set bs. in_slice img b r c)"
    using assms(2,3) in_slice_in_box by blast
  then show ?thesis unfolding out by (simp add: apply_boxes_eq)
qed

theorem outside_boxes_unchanged_witness:
  "box_ok 2 2 0 (0, 0, 1, 1) \<and> \<not> in_box (0, 0, 1, 1) 1 1 \<and>
   pixel_at 1 1 (anonymize mean_cv spot_params spot_frame [(0, 0, 1, 1)]) = Some (px spot_frame 1 1) \<and>
   pixel_at 0 0 (anonymize mean_cv spot_params spot_frame [(0, 0, 1, 1)]) = Some 25"
proof -
  have sh: "rows spot_frame = 2" "cols spot_frame = 2" by (simp_all add: spot_frame_def)
  obtain out where out: "anonymize mean_cv spot_params spot_frame [(0, 0, 1, 1)] = Inr out"
    by (simp add: anonymize_def spot_mosaic[OF sh])
  have ok: "\<forall>b\<in>set [(0, 0, 1, 1)]. box_ok (int (cols spot_frame)) (int (rows spot_frame)) 0 b"
    by (simp add: sh box_ok_def)
  have outside: "\<forall>b\<in>set [(0, 0, 1, 1)]. \<not> in_box b 1 1" by (simp add: in_box_def)
  from outside_boxes_unchanged[OF out ok outside] have "px out 1 1 = px spot_frame 1 1" by blast
  then have "pixel_at 1 1 (anonymize mean_cv spot_params spot_frame [(0, 0, 1, 1)]) =
      Some (px spot_frame 1 1)"
    by (simp add: out pixel_at_def)
  moreover have "box_ok 2 2 0 (0, 0, 1, 1)" "\<not> in_box (0, 0, 1, 1) 1 1"
    by (simp_all add: box_ok_def in_box_def)
  ultimately show ?thesis using twice1 by simp
qed

text \<open>
  C4 as stated fails. A second call of \<open>anonymize\<close> computes a new mosaic from the
  frame the first call returned (lines 91-98 run on every call), and that mosaic need not
  agree with the first one. On the 2 by 2 frame with values 100, 0, 0, 0, pixelation
  factor 2 and the single box \<open>(0, 0)-(1, 1)\<close>, with area averaging as the resize (what
  OpenCV computes on this input: a 2 by 2 mean when shrinking by 2, replication when
  enlarging by a whole factor), the first call writes the mean 25 into the top-left pixel;
  the second call averages 25, 0, 0, 0 and writes 6.
\<close>

theorem anonymize_not_idempotent:
  "anonymize_twice mean_cv spot_params spot_frame [(0, 0, 1, 1)] \<noteq>
   anonymize mean_cv spot_params spot_frame [(0, 0, 1, 1)]"
proof
  assume "anonymize_twice mean_cv spot_params spot_frame [(0, 0, 1, 1)] =
          anonymize mean_cv spot_params spot_frame [(0, 0, 1, 1)]"
  then have "pixel_at 0 0 (anonymize_twice mean_cv spot_params spot_frame [(0, 0, 1, 1)]) =
             pixel_at 0 0 (anonymize mean_cv spot_params spot_frame [(0, 0, 1, 1)])"
    by simp
  then show False unfolding twice1 twice2 by simp
qed

lemma mosaic_shape_only:
  assumes "rows a = rows b" "cols a = cols b" "mosaic cv ps b = Inr Pb"
  shows "\<exists>Pa. mosaic cv ps a = Inr Pa"
  using assms
  by (auto simp: mosaic_def Let_def cv_resize_def split: sum.splits if_splits prod.splits)

text \<open>
  C4, amended. When \<open>anonymize\<close> returns a frame, a second call on that frame with the
  same boxes returns a frame too, of the same shape, and leaves every pixel outside the
  box regions as it is in the input. Inside the box regions the first call writes the
  mosaic of the input frame and the second call writes the mosaic of the frame the first
  call returned, so the two results agree exactly where those two mosaics agree.
  Copying the whole box sequence twice within one call, from the one mosaic, gives the
  result of copying it once.
\<close>

theorem anonymize_twice_recomputes_mosaic:
  assumes "anonymize cv ps img bs = Inr once"
  shows "anonymize cv ps img (bs @ bs) = Inr once \<and>
    (\<exists>P1 P2 twice.
      mosaic cv ps img = Inr P1 \<and> mosaic cv ps once = Inr P2 \<and>
      anonymize_twice cv ps img bs = Inr twice \<and>
      rows twice = rows img \<and> cols twice = cols img \<and>
      (\<forall>r c. px once r c =
         (if \<exists>b\<in>set bs. in_slice img b r c then px P1 r c else px img r c)) \<and>
      (\<forall>r c. px twice r c =
         (if \<exists>b\<in>set bs. in_slice img b r c then px P2 r c else px img r c)))"
proof -
  from assms obtain P1 where m1: "mosaic cv ps img = Inr P1" and once: "once = apply_boxes P1 img bs"
    by (auto simp: anonymize_def split: sum.splits)
  have sh: "rows once = rows img" "cols once = cols img" by (simp_all add: once)
  from mosaic_shape_only[OF sh m1] obtain P2 where m2: "mosaic cv ps once = Inr P2" by blast
  let ?twice = "apply_boxes P2 once bs"
  have sl: "\<And>bx r c. in_slice once bx r c = in_slice img bx r c"
    by (rule in_slice_shape) (simp_all only: sh)
  have dup: "anonymize cv ps img (bs @ bs) = Inr once"
    by (simp add: anonymize_def m1 once apply_boxes_append apply_boxes_idempotent)
  have tw: "anonymize_twice cv ps img bs = Inr ?twice"
    by (simp add: anonymize_twice_def anonymize_def m1 m2 once[symmetric])
  have p1: "\<forall>r c. px once r c =
      (if \<exists>b\<in>set bs. in_slice img b r c then px P1 r c else px img r c)"
    by (simp add: once apply_boxes_px)
  have p2: "\<forall>r c. px ?twice r c =
      (if \<exists>b\<in>set bs. in_slice img b r c then px P2 r c else px img r c)"
    unfolding apply_boxes_px[of P2 once] sl using p1 by simp
  have sh2: "rows ?twice = rows img" "cols ?twice = cols img" by (simp_all add: sh)
  from dup m1 m2 tw sh2 p1 p2 show ?thesis by blast
qed

theorem anonymize_twice_recomputes_mosaic_witness:
  "pixel_at 0 0 (anonymize mean_cv spot_params spot_frame [(0, 0, 1, 1)]) = Some 25 \<and>
   pixel_at 0 0 (anonymize_twice mean_cv spot_params spot_frame [(0, 0, 1, 1)]) = Some 6 \<and>
   pixel_at 1 1 (anonymize_twice mean_cv spot_params spot_frame [(0, 0, 1, 1)]) = Some 0 \<and>
   anonymize mean_cv spot_params spot_frame ([(0, 0, 1, 1)] @ [(0, 0, 1, 1)]) =
     anonymize mean_cv spot_params spot_frame [(0, 0, 1, 1)]"
proof -
  let ?bs = "[(0, 0, 1, 1)] :: box list"
  have sh: "rows spot_frame = 2" "cols spot_frame = 2" by (simp_all add: spot_frame_def)
  obtain once where once: "anonymize mean_cv spot_params spot_frame ?bs = Inr once"
    by (simp add: anonymize_def spot_mosaic[OF sh])
  from anonymize_twice_recomputes_mosaic[OF once] obtain P1 P2 twice where
    dup: "anonymize mean_cv spot_params spot_frame (?bs @ ?bs) = Inr once"
    and m1: "mosaic mean_cv spot_params spot_frame = Inr P1"
    and m2: "mosaic mean_cv spot_params once = Inr P2"
    and tw: "anonymize_twice mean_cv spot_params spot_frame ?bs = Inr twice"
    and sh2: "rows twice = rows spot_frame" "cols twice = cols spot_frame"
    and p1: "\<And>r c. px once r c =
        (if \<exists>b\<in>set ?bs. in_slice spot_frame b r c then px P1 r c else px spot_frame r c)"
    and p2: "\<And>r c. px twice r c =
        (if \<exists>b\<in>set ?bs. in_slice spot_frame b r c then px P2 r c else px spot_frame r c)"
    by blast
  have sl: "\<And>r c. (\<exists>b\<in>set ?bs. in_slice spot_frame b r c) \<longleftrightarrow> r = 0 \<and> c = 0"
    by (auto simp: in_slice_def slice_bound_def sh)
  have P1: "px P1 0 0 = 25"
    using m1 unfolding spot_mosaic[OF sh]
    by (auto simp: mean_cv_def block_mean_def spot_frame_def Let_def)
  have o: "px once 0 0 = 25" "px once 0 (Suc 0) = 0" "px once (Suc 0) 0 = 0"
    "px once (Suc 0) (Suc 0) = 0"
    unfolding p1 sl by (simp_all add: P1 spot_frame_def)
  have sho: "rows once = 2" "cols once = 2"
    using once by (auto simp: anonymize_def spot_mosaic[OF sh] sh)
  have P2: "px P2 0 0 = 6"
    using m2 unfolding spot_mosaic[OF sho]
    by (auto simp: mean_cv_def block_mean_def sho o Let_def)
  have t00: "px twice 0 0 = 6" unfolding p2 sl by (simp add: P2)
  have t11: "px twice (Suc 0) (Suc 0) = 0" unfolding p2 sl by (simp add: spot_frame_def)
  show ?thesis
    unfolding dup once tw by (simp add: pixel_at_def o t00 t11)
qed

section \<open>Files, videos and progress\<close>

lemma insort_key_skip:
  fixes k :: "'a \<Rightarrow> bool"
  assumes "\<forall>x\<in>set F. \<not> k x" "k y"
  shows "insort_key k y (F @ T) = F @ insort_key k y T"
  using assms by (induction F) auto

lemma insort_key_front:
  fixes k :: "'a \<Rightarrow> bool"
  assumes "\<not> k y"
  shows "insort_key k y xs = y # xs"
  using assms by (cases xs) auto

lemma insort_key_true_front:
  fixes k :: "'a \<Rightarrow> bool"
  assumes "k y" "\<forall>x\<in>set T. k x"
  shows "insort_key k y T = y # T"
  using assms by (cases T) auto

lemma sort_key_bool:
  fixes k :: "'a \<Rightarrow> bool"
  shows "sort_key k xs = filter (\<lambda>x. \<not> k x) xs @ filter k xs"
proof (induction xs)
  case Nil
  show ?case by simp
next
  case (Cons x xs)
  show ?case
  proof (cases "k x")
    case True
    have "sort_key k (x # xs) = insort_key k x (filter (\<lambda>x. \<not> k x) xs @ filter k xs)"
      by (simp add: Cons.IH)
    also have "\<dots> = filter (\<lambda>x. \<not> k x) xs @ insort_key k x (filter k xs)"
      by (rule insort_key_skip) (simp_all add: True)
    also have "insort_key k x (filter k xs) = x # filter k xs"
      by (rule insort_key_true_front) (simp_all add: True)
    finally show ?thesis by (simp add: True)
  next
    case False
    have "sort_key k (x # xs) = insort_key k x (filter (\<lambda>x. \<not> k x) xs @ filter k xs)"
      by (simp add: Cons.IH)
    also have "\<dots> = x # (filter (\<lambda>x. \<not> k x) xs @ filter k xs)"
      using False by (simp add: insort_key_front[of k x])
    finally show ?thesis by (simp add: False)
  qed
qed

lemma py_sorted_reverse_bool:
  "py_sorted_reverse k xs = filter k xs @ filter (\<lambda>x. \<not> k x) xs"
  by (simp add: py_sorted_reverse_def sort_key_bool rev_filter)

lemma announced_append: "announced (a @ b) = announced a @ announced b"
  by (induction a rule: announced.induct) simp_all

lemma global_values_append: "global_values (a @ b) = global_values a @ global_values b"
  by (induction a rule: global_values.induct) simp_all

lemma local_values_append: "local_values (a @ b) = local_values a @ local_values b"
  by (induction a rule: local_values.induct) simp_all

lemma video_frames_quiet:
  assumes "video_frames cb proc out bar fs = (evs, r)"
  shows "announced evs = [] \<and> global_values evs = []"
  using assms
proof (induction fs arbitrary: bar evs r)
  case Nil
  then show ?case by simp
next
  case (Cons f fs)
  show ?case
  proof (cases "proc f")
    case (Inl e)
    with Cons.prems show ?thesis by simp
  next
    case (Inr img)
    obtain later r2 where rec: "video_frames cb proc out (bar_update 1 bar) fs = (later, r2)"
      by (cases "video_frames cb proc out (bar_update 1 bar) fs") blast
    from Cons.IH[OF rec] have q: "announced later = []" "global_values later = []" by simp_all
    from Cons.prems Inr rec have "evs = FrameWritten out img #
        (if local_progress_callback cb then [LocalProgress (bar_pct (bar_update 1 bar))] else [])
        @ later"
      by (simp add: Let_def)
    with q show ?thesis by simp
  qed
qed

lemma process_video_file_quiet:
  assumes "process_video_file cb proc cap out = (evs, r)"
  shows "announced evs = [] \<and> global_values evs = []"
proof -
  obtain fe fr where vf:
    "(if opened cap then video_frames cb proc out (new_bar (frame_count cap)) (frames cap)
      else ([], Inr ())) = (fe, fr)"
    by (cases "if opened cap then video_frames cb proc out (new_bar (frame_count cap)) (frames cap)
      else ([], Inr ())") blast
  have q: "announced fe = [] \<and> global_values fe = []"
  proof (cases "opened cap")
    case True
    with vf have "video_frames cb proc out (new_bar (frame_count cap)) (frames cap) = (fe, fr)"
      by simp
    then show ?thesis by (rule video_frames_quiet)
  next
    case False
    with vf show ?thesis by simp
  qed
  have "evs = WriterOpened out # fe \<or> evs = WriterOpened out # fe @ [Released out]"
    using assms vf by (cases fr) (simp_all add: process_video_file_def Let_def)
  with q show ?thesis by (auto simp: announced_append global_values_append)
qed

lemma process_image_file_quiet:
  assumes "process_image_file proc im out = (evs, r)"
  shows "announced evs = [] \<and> global_values evs = [] \<and> local_values evs = []"
  using assms by (auto simp: process_image_file_def split: option.splits sum.splits)

lemma process_file_inner_announced:
  assumes "process_file_inner cb proc w f g = (evs, r)"
  shows "announced evs = (if global_progress_callback cb then [path_name f] else []) \<and>
         global_values evs = (if global_progress_callback cb then [g] else [])"
proof -
  let ?media = "if (if suffix f \<in> set video_extensions then Video else Image) = Video
       then process_video_file cb proc (video_capture w (path_name f)) (out_filepath w (path_name f))
       else process_image_file proc (imread w (path_name f)) (out_filepath w (path_name f))"
  obtain me mr where m: "?media = (me, mr)" by (cases ?media) blast
  have q: "announced me = [] \<and> global_values me = []"
  proof (cases "suffix f \<in> set video_extensions")
    case True
    with m have "process_video_file cb proc (video_capture w (path_name f))
        (out_filepath w (path_name f)) = (me, mr)" by simp
    then show ?thesis by (rule process_video_file_quiet)
  next
    case False
    with m have "process_image_file proc (imread w (path_name f))
        (out_filepath w (path_name f)) = (me, mr)" by simp
    from process_image_file_quiet[OF this] show ?thesis by simp
  qed
  have "evs = (if global_progress_callback cb
      then [GlobalProgress g (if suffix f \<in> set video_extensions then Video else Image) (path_name f)]
      else []) @ me"
    using assms m by (simp add: process_file_inner_def Let_def)
  with q show ?thesis by (simp add: announced_append global_values_append)
qed

lemma process_files_announced:
  assumes "global_progress_callback cb"
    and "snd (process_files h cb proc w bar fs) = Inr ()"
  shows "announced (fst (process_files h cb proc w bar fs)) = map path_name fs"
  using assms(2)
proof (induction fs arbitrary: bar)
  case Nil
  show ?case by simp
next
  case (Cons f fs)
  obtain evs r where one: "process_file_inner cb proc w f (bar_pct bar) = (evs, r)"
    by (cases "process_file_inner cb proc w f (bar_pct bar)") blast
  have a1: "announced evs = [path_name f]"
    using process_file_inner_announced[OF one] assms(1) by simp
  show ?case
  proof (cases r)
    case (Inl e)
    with Cons.prems one show ?thesis by simp
  next
    case (Inr u)
    let ?bar = "if h then bar else bar_update 1 bar"
    obtain later r2 where two: "process_files h cb proc w ?bar fs = (later, r2)"
      by (cases "process_files h cb proc w ?bar fs") blast
    have whole: "process_files h cb proc w bar (f # fs) = (evs @ later, r2)"
      by (simp add: one Inr two)
    with Cons.prems have "r2 = Inr ()" by simp
    with two have "snd (process_files h cb proc w ?bar fs) = Inr ()" by simp
    from Cons.IH[OF this] two have "announced later = map path_name fs" by simp
    with a1 whole show ?thesis by (simp add: announced_append)
  qed
qed

lemma bar_pct_le_1: "bar_pct bar \<le> 1"
  by (simp add: bar_pct_def)

lemma bar_pct_update_mono:
  assumes "0 \<le> pos bar"
  shows "bar_pct bar \<le> bar_pct (bar_update 1 bar)"
proof (cases "finished bar \<or> length_bar bar \<le> pos bar + 1")
  case True
  then have "bar_pct (bar_update 1 bar) = 1" by (simp add: bar_pct_def bar_update_def Let_def)
  then show ?thesis by (simp add: bar_pct_le_1)
next
  case False
  then have L: "0 < length_bar bar" using assms by simp
  have "(of_int (pos bar) :: rat) / of_int (length_bar bar)
          \<le> of_int (pos bar + 1) / of_int (length_bar bar)"
    using L by (simp add: divide_right_mono)
  then show ?thesis
    using False L by (simp add: bar_pct_def bar_update_def Let_def min_le_iff_disj)
qed

lemma bar_update_pos [simp]: "pos (bar_update 1 bar) = pos bar + 1"
  "length_bar (bar_update 1 bar) = length_bar bar"
  by (simp_all add: bar_update_def Let_def)

lemma video_frames_local_sorted:
  assumes "video_frames cb proc out bar fs = (tr, r)" "0 \<le> pos bar"
  shows "sorted (local_values tr) \<and> (\<forall>v\<in>set (local_values tr). bar_pct bar \<le> v)"
  using assms
proof (induction fs arbitrary: bar tr r)
  case Nil
  then show ?case by simp
next
  case (Cons f fs)
  show ?case
  proof (cases "proc f")
    case (Inl e)
    with Cons.prems show ?thesis by simp
  next
    case (Inr img)
    let ?bar = "bar_update 1 bar"
    obtain later r2 where rec: "video_frames cb proc out ?bar fs = (later, r2)"
      by (cases "video_frames cb proc out ?bar fs") blast
    have p: "0 \<le> pos ?bar" using Cons.prems(2) by simp
    from Cons.IH[OF rec p] have ih: "sorted (local_values later)"
      "\<forall>v\<in>set (local_values later). bar_pct ?bar \<le> v" by simp_all
    have mono: "bar_pct bar \<le> bar_pct ?bar" by (rule bar_pct_update_mono[OF Cons.prems(2)])
    from Cons.prems(1) Inr rec have tr: "local_values tr =
        (if local_progress_callback cb then [bar_pct ?bar] else []) @ local_values later"
      by (auto simp: Let_def local_values_append)
    show ?thesis unfolding tr using ih mono by (auto simp: sorted_append)
  qed
qed

lemma video_frames_local_last:
  assumes "local_progress_callback cb"
    and "video_frames cb proc out bar fs = (tr, Inr ())"
    and "fs \<noteq> []"
    and "length_bar bar \<le> pos bar + int (length fs)"
  shows "local_values tr \<noteq> [] \<and> last (local_values tr) = 1"
  using assms(2-)
proof (induction fs arbitrary: bar tr)
  case Nil
  then show ?case by simp
next
  case (Cons f fs)
  show ?case
  proof (cases "proc f")
    case (Inl e)
    with Cons.prems show ?thesis by simp
  next
    case (Inr img)
    let ?bar = "bar_update 1 bar"
    obtain later r2 where rec: "video_frames cb proc out ?bar fs = (later, r2)"
      by (cases "video_frames cb proc out ?bar fs") blast
    from Cons.prems(1) Inr rec have r2: "r2 = Inr ()"
      and tr: "local_values tr = bar_pct ?bar # local_values later"
      using assms(1) by (auto simp: Let_def local_values_append)
    show ?thesis
    proof (cases "fs = []")
      case True
      with rec have "later = []" by simp
      moreover have "finished ?bar" using Cons.prems(3) True by (simp add: bar_update_def Let_def)
      ultimately show ?thesis unfolding tr by (simp add: bar_pct_def)
    next
      case False
      have "length_bar ?bar \<le> pos ?bar + int (length fs)" using Cons.prems(3) by simp
      from Cons.IH[OF rec[unfolded r2] False this] show ?thesis unfolding tr by simp
    qed
  qed
qed

lemma process_video_file_local:
  assumes "process_video_file cb proc cap out = (tr, r)"
  shows "\<exists>fe fr. (if opened cap then video_frames cb proc out (new_bar (frame_count cap)) (frames cap)
                    else ([], Inr ())) = (fe, fr) \<and> local_values tr = local_values fe \<and>
                 (r = Inr () \<longrightarrow> fr = Inr ())"
proof -
  obtain fe fr where vf:
    "(if opened cap then video_frames cb proc out (new_bar (frame_count cap)) (frames cap)
      else ([], Inr ())) = (fe, fr)"
    by (cases "if opened cap then video_frames cb proc out (new_bar (frame_count cap)) (frames cap)
      else ([], Inr ())") blast
  have "local_values tr = local_values fe \<and> (r = Inr () \<longrightarrow> fr = Inr ())"
    using assms vf by (cases fr) (auto simp: process_video_file_def Let_def local_values_append)
  with vf show ?thesis by blast
qed

lemma process_files_global:
  assumes "process_files h cb proc w bar fs = (tr, r)"
    and "0 \<le> pos bar" "\<not> finished bar" "pos bar + int (length fs) \<le> length_bar bar"
  shows "sorted (global_values tr) \<and> (\<forall>v\<in>set (global_values tr). bar_pct bar \<le> v \<and> v < 1)"
  using assms
proof (induction fs arbitrary: bar tr r)
  case Nil
  then show ?case by simp
next
  case (Cons f fs)
  obtain evs r1 where one: "process_file_inner cb proc w f (bar_pct bar) = (evs, r1)"
    by (cases "process_file_inner cb proc w f (bar_pct bar)") blast
  note g1 = process_file_inner_announced[OF one]
  have L: "pos bar < length_bar bar" using Cons.prems(4) by simp
  then have L0: "0 < length_bar bar" using Cons.prems(2) by simp
  have pct: "bar_pct bar = of_int (pos bar) / of_int (length_bar bar)"
    using L L0 Cons.prems(3) by (simp add: bar_pct_def)
  have lt1: "bar_pct bar < 1" unfolding pct using L L0 by simp
  show ?case
  proof (cases r1)
    case (Inl e)
    with Cons.prems(1) one have "tr = evs" by simp
    with g1 lt1 show ?thesis by simp
  next
    case (Inr u)
    let ?bar = "if h then bar else bar_update 1 bar"
    obtain later r2 where two: "process_files h cb proc w ?bar fs = (later, r2)"
      by (cases "process_files h cb proc w ?bar fs") blast
    have tr: "tr = evs @ later" using Cons.prems(1) one Inr two by simp
    show ?thesis
    proof (cases "fs = []")
      case True
      with two have "later = []" by simp
      with tr g1 lt1 show ?thesis by simp
    next
      case False
      then have len: "1 \<le> int (length fs)" by (cases fs) simp_all
      have p: "0 \<le> pos ?bar" using Cons.prems(2) by simp
      have nf: "\<not> finished ?bar"
        using Cons.prems(3,4) len by (simp add: bar_update_def Let_def)
      have le: "pos ?bar + int (length fs) \<le> length_bar ?bar"
        using Cons.prems(4) by simp
      from Cons.IH[OF two p nf le] have ih: "sorted (global_values later)"
        "\<forall>v\<in>set (global_values later). bar_pct ?bar \<le> v \<and> v < 1" by simp_all
      have mono: "bar_pct bar \<le> bar_pct ?bar"
        using bar_pct_update_mono[OF Cons.prems(2)] by simp
      show ?thesis unfolding tr using g1 ih mono lt1
        by (auto simp: global_values_append sorted_append)
    qed
  qed
qed

lemma demo_files:
  "files_to_process demo_entries =
     [\<lparr>path_name = ''b.png'', suffix = ''.png'', is_file = True\<rparr>,
      \<lparr>path_name = ''sub/c.jpg'', suffix = ''.jpg'', is_file = True\<rparr>,
      \<lparr>path_name = ''a.mp4'', suffix = ''.mp4'', is_file = True\<rparr>,
      \<lparr>path_name = ''sub/d.avi'', suffix = ''.avi'', is_file = True\<rparr>]"
  by (simp add: files_to_process_def py_sorted_reverse_def demo_entries_def
      image_extensions_def video_extensions_def supported_extensions_def)

lemma demo_image_run:
  assumes "suffix f \<notin> set video_extensions"
  shows "process_file_inner both_callbacks Inr demo_world f g =
     ([GlobalProgress g Image (path_name f), ImageWritten (''out/'' @ path_name f) spot_frame],
      Inr ())"
  using assms
  by (simp add: process_file_inner_def process_image_file_def both_callbacks_def demo_world_def
      Let_def)

lemma demo_video_run:
  "process_video_file both_callbacks Inr two_frames out =
   ([WriterOpened out, FrameWritten out spot_frame, LocalProgress (1 / 2),
     FrameWritten out spot_frame, LocalProgress 1, Released out], Inr ())"
  by (simp add: process_video_file_def two_frames_def both_callbacks_def new_bar_def
      bar_update_def bar_pct_def Let_def)

lemma demo_video_file_run:
  assumes "suffix f \<in> set video_extensions"
  shows "process_file_inner both_callbacks Inr demo_world f g =
     ([GlobalProgress g Video (path_name f), WriterOpened (''out/'' @ path_name f),
       FrameWritten (''out/'' @ path_name f) spot_frame, LocalProgress (1 / 2),
       FrameWritten (''out/'' @ path_name f) spot_frame, LocalProgress 1,
       Released (''out/'' @ path_name f)], Inr ())"
proof -
  have "process_file_inner both_callbacks Inr demo_world f g =
      (case process_video_file both_callbacks Inr two_frames (''out/'' @ path_name f) of
         (evs, r) \<Rightarrow> ([GlobalProgress g Video (path_name f)] @ evs, r))"
    using assms
    by (simp add: process_file_inner_def Let_def, simp add: both_callbacks_def demo_world_def)
  then show ?thesis unfolding demo_video_run by simp
qed

lemma demo_dir_result: "snd (process_dir False both_callbacks Inr demo_world demo_entries) = Inr ()"
  by (simp add: process_dir_def demo_files demo_image_run demo_video_file_run
      video_extensions_def)

lemma demo_dir_global:
  "global_values (fst (process_dir False both_callbacks Inr demo_world demo_entries)) =
     [0, 1 / 4, 1 / 2, 3 / 4]"
  by (simp add: process_dir_def demo_files demo_image_run demo_video_file_run
      video_extensions_def new_bar_def bar_update_def bar_pct_def Let_def)

lemma written_append: "written (a @ b) = written a @ written b"
  by (induction a rule: written.induct) simp_all

lemma video_frames_written:
  assumes "video_frames cb proc out bar fs = (evs, r)"
  shows "written evs = []"
  using assms
proof (induction fs arbitrary: bar evs r)
  case Nil
  then show ?case by simp
next
  case (Cons f fs)
  show ?case
  proof (cases "proc f")
    case (Inl e)
    with Cons.prems show ?thesis by simp
  next
    case (Inr img)
    obtain later r2 where rec: "video_frames cb proc out (bar_update 1 bar) fs = (later, r2)"
      by (cases "video_frames cb proc out (bar_update 1 bar) fs") blast
    from Cons.IH[OF rec] have q: "written later = []" .
    from Cons.prems Inr rec have "evs = FrameWritten out img #
        (if local_progress_callback cb then [LocalProgress (bar_pct (bar_update 1 bar))] else [])
        @ later"
      by (simp add: Let_def)
    with q show ?thesis by simp
  qed
qed

lemma process_video_file_written:
  assumes "process_video_file cb proc cap out = (evs, r)"
  shows "written evs = [out]"
proof -
  obtain fe fr where vf:
    "(if opened cap then video_frames cb proc out (new_bar (frame_count cap)) (frames cap)
      else ([], Inr ())) = (fe, fr)"
    by (cases "if opened cap then video_frames cb proc out (new_bar (frame_count cap)) (frames cap)
      else ([], Inr ())") blast
  have q: "written fe = []"
  proof (cases "opened cap")
    case True
    with vf have "video_frames cb proc out (new_bar (frame_count cap)) (frames cap) = (fe, fr)"
      by simp
    then show ?thesis by (rule video_frames_written)
  next
    case False
    with vf show ?thesis by simp
  qed
  have "evs = WriterOpened out # fe \<or> evs = WriterOpened out # fe @ [Released out]"
    using assms vf by (cases fr) (simp_all add: process_video_file_def Let_def)
  with q show ?thesis by (auto simp: written_append)
qed

lemma process_image_file_written:
  assumes "process_image_file proc im out = (evs, r)"
  shows "written evs = (if r = Inr () then [out] else [])"
  using assms by (auto simp: process_image_file_def split: option.splits sum.splits)

lemma process_file_inner_written:
  assumes "process_file_inner cb proc w f g = (evs, r)"
  shows "written evs = [out_filepath w (path_name f)] \<or> (written evs = [] \<and> r \<noteq> Inr ())"
proof -
  let ?media = "if (if suffix f \<in> set video_extensions then Video else Image) = Video
       then process_video_file cb proc (video_capture w (path_name f)) (out_filepath w (path_name f))
       else process_image_file proc (imread w (path_name f)) (out_filepath w (path_name f))"
  obtain me mr where m: "?media = (me, mr)" by (cases ?media) blast
  have ev: "evs = (if global_progress_callback cb
      then [GlobalProgress g (if suffix f \<in> set video_extensions then Video else Image) (path_name f)]
      else []) @ me" and r: "r = mr"
    using assms m by (simp_all add: process_file_inner_def Let_def)
  have q: "written me = [out_filepath w (path_name f)] \<or> (written me = [] \<and> mr \<noteq> Inr ())"
  proof (cases "suffix f \<in> set video_extensions")
    case True
    with m have "process_video_file cb proc (video_capture w (path_name f))
        (out_filepath w (path_name f)) = (me, mr)" by simp
    from process_video_file_written[OF this] show ?thesis by simp
  next
    case False
    with m have "process_image_file proc (imread w (path_name f))
        (out_filepath w (path_name f)) = (me, mr)" by simp
    from process_image_file_written[OF this] show ?thesis by (cases "mr = Inr ()") simp_all
  qed
  then show ?thesis unfolding ev r by (simp add: written_append)
qed

lemma process_files_written:
  assumes "process_files h cb proc w bar fs = (evs, r)"
  shows "(\<exists>n. written evs = take n (map (\<lambda>f. out_filepath w (path_name f)) fs)) \<and>
         (r = Inr () \<longrightarrow> written evs = map (\<lambda>f. out_filepath w (path_name f)) fs)"
  using assms
proof (induction fs arbitrary: bar evs r)
  case Nil
  then show ?case by simp
next
  case (Cons f fs)
  let ?out = "\<lambda>f. out_filepath w (path_name f)"
  obtain e1 r1 where one: "process_file_inner cb proc w f (bar_pct bar) = (e1, r1)"
    by (cases "process_file_inner cb proc w f (bar_pct bar)") blast
  note w1 = process_file_inner_written[OF one]
  show ?case
  proof (cases r1)
    case (Inl e)
    with Cons.prems one have ev: "evs = e1" "r = Inl e" by simp_all
    from w1 have "written e1 = take 1 (map ?out (f # fs)) \<or> written e1 = take 0 (map ?out (f # fs))"
      by auto
    then have "\<exists>n. written e1 = take n (map ?out (f # fs))" by blast
    with ev show ?thesis by simp
  next
    case (Inr u)
    with w1 have w1': "written e1 = [?out f]" by auto
    let ?bar = "if h then bar else bar_update 1 bar"
    obtain later r2 where two: "process_files h cb proc w ?bar fs = (later, r2)"
      by (cases "process_files h cb proc w ?bar fs") blast
    from Cons.prems one Inr two have ev: "evs = e1 @ later" "r = r2" by simp_all
    from Cons.IH[OF two] obtain n where n: "written later = take n (map ?out fs)"
      and full: "r2 = Inr () \<longrightarrow> written later = map ?out fs" by blast
    have "written evs = take (Suc n) (map ?out (f # fs))"
      by (simp add: ev written_append w1' n)
    moreover have "r = Inr () \<longrightarrow> written evs = map ?out (f # fs)"
      using full by (simp add: ev written_append w1')
    ultimately show ?thesis by blast
  qed
qed

lemma process_files_announced_prefix:
  assumes "global_progress_callback cb"
    and "process_files h cb proc w bar fs = (evs, r)"
  shows "\<exists>n. announced evs = take n (map path_name fs)"
  using assms(2)
proof (induction fs arbitrary: bar evs r)
  case Nil
  then show ?case by simp
next
  case (Cons f fs)
  obtain e1 r1 where one: "process_file_inner cb proc w f (bar_pct bar) = (e1, r1)"
    by (cases "process_file_inner cb proc w f (bar_pct bar)") blast
  have a1: "announced e1 = [path_name f]"
    using process_file_inner_announced[OF one] assms(1) by simp
  show ?case
  proof (cases r1)
    case (Inl e)
    with Cons.prems one have "evs = e1" by simp
    with a1 have "announced evs = take 1 (map path_name (f # fs))" by simp
    then show ?thesis by blast
  next
    case (Inr u)
    let ?bar = "if h then bar else bar_update 1 bar"
    obtain later r2 where two: "process_files h cb proc w ?bar fs = (later, r2)"
      by (cases "process_files h cb proc w ?bar fs") blast
    from Cons.prems one Inr two have ev: "evs = e1 @ later" by simp
    from Cons.IH[OF two] obtain n where "announced later = take n (map path_name fs)" by blast
    then have "announced evs = take (Suc n) (map path_name (f # fs))"
      by (simp add: ev announced_append a1)
    then show ?thesis by blast
  qed
qed

lemma eligible_kinds:
  assumes "f \<in> set (eligible entries)"
  shows "is_image f \<longleftrightarrow> suffix f \<notin> set video_extensions"
  using assms
  by (auto simp: eligible_def is_image_def supported_extensions_def image_extensions_def
      video_extensions_def)

lemma demo_cli_run:
  "process_dir False no_callbacks Inr demo_world demo_entries =
     ([ImageWritten ''out/b.png'' spot_frame, ImageWritten ''out/sub/c.jpg'' spot_frame,
       WriterOpened ''out/a.mp4'', FrameWritten ''out/a.mp4'' spot_frame,
       FrameWritten ''out/a.mp4'' spot_frame, Released ''out/a.mp4'',
       WriterOpened ''out/sub/d.avi'', FrameWritten ''out/sub/d.avi'' spot_frame,
       FrameWritten ''out/sub/d.avi'' spot_frame, Released ''out/sub/d.avi''], Inr ())"
  by (simp add: process_dir_def demo_files process_file_inner_def process_image_file_def
      process_video_file_def no_callbacks_def demo_world_def two_frames_def video_extensions_def
      Let_def)

lemma demo_failed_run:
  "process_dir False no_callbacks Inr unreadable_world demo_entries =
     ([ImageWritten ''out/b.png'' spot_frame], Inl AttributeError)"
  by (simp add: process_dir_def demo_files process_file_inner_def process_image_file_def
      no_callbacks_def demo_world_def unreadable_world_def video_extensions_def Let_def)

lemma demo_order:
  "images_then_videos demo_entries =
     [\<lparr>path_name = ''b.png'', suffix = ''.png'', is_file = True\<rparr>,
      \<lparr>path_name = ''sub/c.jpg'', suffix = ''.jpg'', is_file = True\<rparr>,
      \<lparr>path_name = ''a.mp4'', suffix = ''.mp4'', is_file = True\<rparr>,
      \<lparr>path_name = ''sub/d.avi'', suffix = ''.avi'', is_file = True\<rparr>]"
  by (simp add: images_then_videos_def eligible_def is_image_def demo_entries_def
      image_extensions_def video_extensions_def supported_extensions_def)

text \<open>
  C9. The list the batch loop iterates over is the eligible images in the order in which
  the enumeration delivered them, followed by the eligible videos in that order; the
  loop runs the first group as image jobs and the second as video jobs. Whatever
  callbacks are installed and however the run ends, the output files are created in this
  order: every image is written before the first video writer is opened, and a run ended
  by an exception has created an initial segment of the list. A run that ends without
  an exception creates the whole list; with a global callback installed the files are
  announced in the same order.
\<close>

theorem images_before_videos:
  "files_to_process entries = images_then_videos entries \<and>
   (\<forall>f\<in>set (eligible entries). is_image f \<longleftrightarrow> suffix f \<notin> set video_extensions) \<and>
   (\<exists>n. written (fst (process_dir h cb proc w entries)) =
      take n (map (\<lambda>f. out_filepath w (path_name f)) (images_then_videos entries))) \<and>
   (snd (process_dir h cb proc w entries) = Inr () \<longrightarrow>
      written (fst (process_dir h cb proc w entries)) =
        map (\<lambda>f. out_filepath w (path_name f)) (images_then_videos entries)) \<and>
   (global_progress_callback cb \<longrightarrow>
      (\<exists>n. announced (fst (process_dir h cb proc w entries)) =
         take n (map path_name (images_then_videos entries)))) \<and>
   (global_progress_callback cb \<and> snd (process_dir h cb proc w entries) = Inr () \<longrightarrow>
      announced (fst (process_dir h cb proc w entries)) =
        map path_name (images_then_videos entries))"
proof -
  have order: "files_to_process entries = images_then_videos entries"
    unfolding files_to_process_def py_sorted_reverse_bool eligible_def images_then_videos_def
    by (simp add: is_image_def[abs_def])
  obtain evs r where run: "process_dir h cb proc w entries = (evs, r)"
    by (cases "process_dir h cb proc w entries") blast
  then have pf: "process_files h cb proc w (new_bar (int (length (images_then_videos entries))))
      (images_then_videos entries) = (evs, r)"
    by (simp add: process_dir_def Let_def order)
  note wr = process_files_written[OF pf]
  have an: "\<exists>n. announced evs = take n (map path_name (images_then_videos entries))"
    if "global_progress_callback cb"
    using that pf by (rule process_files_announced_prefix)
  have full: "announced evs = map path_name (images_then_videos entries)"
    if "global_progress_callback cb" "r = Inr ()"
  proof -
    from pf that(2) have "snd (process_files h cb proc w
        (new_bar (int (length (images_then_videos entries)))) (images_then_videos entries)) = Inr ()"
      by simp
    from process_files_announced[OF that(1) this] pf show ?thesis by simp
  qed
  have kinds: "\<forall>f\<in>set (eligible entries). is_image f \<longleftrightarrow> suffix f \<notin> set video_extensions"
    using eligible_kinds by blast
  from order kinds wr an full show ?thesis unfolding run by simp
qed

theorem images_before_videos_witness:
  "snd (process_dir False no_callbacks Inr demo_world demo_entries) = Inr () \<and>
   written (fst (process_dir False no_callbacks Inr demo_world demo_entries)) =
     [''out/b.png'', ''out/sub/c.jpg'', ''out/a.mp4'', ''out/sub/d.avi''] \<and>
   global_progress_callback both_callbacks \<and>
   snd (process_dir False both_callbacks Inr demo_world demo_entries) = Inr () \<and>
   announced (fst (process_dir False both_callbacks Inr demo_world demo_entries)) =
     [''b.png'', ''sub/c.jpg'', ''a.mp4'', ''sub/d.avi'']"
proof -
  have cli: "snd (process_dir False no_callbacks Inr demo_world demo_entries) = Inr ()"
    by (simp add: demo_cli_run)
  have cb: "global_progress_callback both_callbacks" by (simp add: both_callbacks_def)
  note t1 = images_before_videos[of demo_entries False no_callbacks Inr demo_world]
  note t2 = images_before_videos[of demo_entries False both_callbacks Inr demo_world]
  from t1 cli have "written (fst (process_dir False no_callbacks Inr demo_world demo_entries)) =
      map (\<lambda>f. out_filepath demo_world (path_name f)) (images_then_videos demo_entries)"
    by blast
  then have w: "written (fst (process_dir False no_callbacks Inr demo_world demo_entries)) =
      [''out/b.png'', ''out/sub/c.jpg'', ''out/a.mp4'', ''out/sub/d.avi'']"
    by (simp add: demo_order demo_world_def)
  from t2 cb demo_dir_result have
    "announced (fst (process_dir False both_callbacks Inr demo_world demo_entries)) =
       map path_name (images_then_videos demo_entries)"
    by blast
  then have a: "announced (fst (process_dir False both_callbacks Inr demo_world demo_entries)) =
     [''b.png'', ''sub/c.jpg'', ''a.mp4'', ''sub/d.avi'']"
    by (simp add: demo_order)
  from cli w cb demo_dir_result a show ?thesis by blast
qed




text \<open>
  C8 as stated fails. A successful run over a single image file hands the global
  callback the value 0 and nothing else (\<open>process_file\<close> passes the default
  \<open>global_progress=0\<close>), and \<open>process_image_file\<close> never calls the local callback: no
  value 1.0 is emitted on either channel.
\<close>

theorem image_run_never_reports_completion:
  "snd (process_file both_callbacks Inr demo_world
          \<lparr>path_name = ''b.png'', suffix = ''.png'', is_file = True\<rparr>) = Inr () \<and>
   local_values (fst (process_file both_callbacks Inr demo_world
          \<lparr>path_name = ''b.png'', suffix = ''.png'', is_file = True\<rparr>)) = [] \<and>
   global_values (fst (process_file both_callbacks Inr demo_world
          \<lparr>path_name = ''b.png'', suffix = ''.png'', is_file = True\<rparr>)) = [0] \<and>
   \<not> spec_progress (fst (process_file both_callbacks Inr demo_world
          \<lparr>path_name = ''b.png'', suffix = ''.png'', is_file = True\<rparr>))"
  by (simp add: process_file_def demo_image_run video_extensions_def spec_progress_def)

text \<open>
  C8, amended. In every run over a directory the values handed to the global callback
  are non-decreasing and each is below 1.0 (the value for a file is the bar's fraction
  before that file is processed, so 1.0 is never emitted). The values handed to the
  local callback while one video file is processed are non-decreasing, and the last of
  them is 1.0 when the callback is installed, the file is processed without an
  exception and at least as many frames were read as the capture reported. An image
  file hands nothing to the local callback.
\<close>

theorem progress_within_run:
  "sorted (global_values (fst (process_dir h cb proc w entries))) \<and>
   (\<forall>v\<in>set (global_values (fst (process_dir h cb proc w entries))). v < 1) \<and>
   sorted (local_values (fst (process_video_file cb proc cap out))) \<and>
   (local_progress_callback cb \<and> opened cap \<and> frames cap \<noteq> [] \<and>
    frame_count cap \<le> int (length (frames cap)) \<and>
    snd (process_video_file cb proc cap out) = Inr () \<longrightarrow>
      last (local_values (fst (process_video_file cb proc cap out))) = 1) \<and>
   local_values (fst (process_image_file proc im out)) = []"
proof -
  obtain tr r where d: "process_dir h cb proc w entries = (tr, r)"
    by (cases "process_dir h cb proc w entries") blast
  let ?fs = "files_to_process entries"
  have pf: "process_files h cb proc w (new_bar (int (length ?fs))) ?fs = (tr, r)"
    using d by (simp add: process_dir_def Let_def)
  have g: "sorted (global_values tr) \<and>
      (\<forall>v\<in>set (global_values tr). bar_pct (new_bar (int (length ?fs))) \<le> v \<and> v < 1)"
    by (rule process_files_global[OF pf]) (simp_all add: new_bar_def)
  obtain vt vr where v: "process_video_file cb proc cap out = (vt, vr)"
    by (cases "process_video_file cb proc cap out") blast
  from process_video_file_local[OF v] obtain fe fr where
    vf: "(if opened cap then video_frames cb proc out (new_bar (frame_count cap)) (frames cap)
          else ([], Inr ())) = (fe, fr)"
    and lv: "local_values vt = local_values fe" and ok: "vr = Inr () \<longrightarrow> fr = Inr ()"
    by blast
  have s: "sorted (local_values vt)"
  proof (cases "opened cap")
    case True
    with vf have "video_frames cb proc out (new_bar (frame_count cap)) (frames cap) = (fe, fr)"
      by simp
    from video_frames_local_sorted[OF this] lv show ?thesis by (simp add: new_bar_def)
  next
    case False
    with vf lv show ?thesis by simp
  qed
  have l: "last (local_values vt) = 1"
    if "local_progress_callback cb" "opened cap" "frames cap \<noteq> []"
      "frame_count cap \<le> int (length (frames cap))" "vr = Inr ()"
  proof -
    from that(2,5) vf ok have
      "video_frames cb proc out (new_bar (frame_count cap)) (frames cap) = (fe, Inr ())" by simp
    from video_frames_local_last[OF that(1) this that(3)] that(4) lv show ?thesis
      by (simp add: new_bar_def)
  qed
  obtain it ir where i: "process_image_file proc im out = (it, ir)"
    by (cases "process_image_file proc im out") blast
  from process_image_file_quiet[OF i] have q: "local_values it = []" by simp
  from g s l q show ?thesis unfolding d v i by simp
qed

theorem progress_within_run_witness:
  "local_progress_callback both_callbacks \<and> opened two_frames \<and> frames two_frames \<noteq> [] \<and>
   frame_count two_frames \<le> int (length (frames two_frames)) \<and>
   snd (process_video_file both_callbacks Inr two_frames ''o.mp4'') = Inr () \<and>
   local_values (fst (process_video_file both_callbacks Inr two_frames ''o.mp4'')) = [1 / 2, 1] \<and>
   last (local_values (fst (process_video_file both_callbacks Inr two_frames ''o.mp4''))) = 1 \<and>
   global_values (fst (process_dir False both_callbacks Inr demo_world demo_entries)) =
     [0, 1 / 4, 1 / 2, 3 / 4] \<and>
   sorted (global_values (fst (process_dir False both_callbacks Inr demo_world demo_entries)))"
proof -
  have h: "local_progress_callback both_callbacks" "opened two_frames" "frames two_frames \<noteq> []"
    "frame_count two_frames \<le> int (length (frames two_frames))"
    "snd (process_video_file both_callbacks Inr two_frames ''o.mp4'') = Inr ()"
    by (simp_all add: demo_video_run) (simp_all add: both_callbacks_def two_frames_def)
  note t = progress_within_run[where h = False and cb = both_callbacks and proc = Inr
      and w = demo_world and entries = demo_entries and cap = two_frames and out = "''o.mp4''"
      and im = "Some spot_frame"]
  from t h have "last (local_values (fst (process_video_file both_callbacks Inr two_frames ''o.mp4''))) = 1"
    by blast
  moreover from t have
    "sorted (global_values (fst (process_dir False both_callbacks Inr demo_world demo_entries)))"
    by blast
  moreover have
    "local_values (fst (process_video_file both_callbacks Inr two_frames ''o.mp4'')) = [1 / 2, 1]"
    by (simp add: demo_video_run)
  ultimately show ?thesis using h demo_dir_global by blast
qed

end
